theory Spec2Isabelle
  imports Complex_Main "HOL-Library.AList" "HOL-Library.Multiset"
begin

section \<open>JavaScript strings\<close>

text \<open>
  Strings are lists of 8-bit characters. The string methods the vault client calls are
  written out: \<open>startsWith\<close>, \<open>endsWith\<close>, \<open>includes\<close>, \<open>split\<close> on a one-character
  separator, \<open>join\<close> and \<open>toLowerCase\<close> (on the ASCII letters).
\<close>

definition startsWith :: "string \<Rightarrow> string \<Rightarrow> bool" where
  "startsWith s p = (take (length p) s = p)"

definition endsWith :: "string \<Rightarrow> string \<Rightarrow> bool" where
  "endsWith s p = (length p \<le> length s \<and> drop (length s - length p) s = p)"

fun str_includes :: "string \<Rightarrow> string \<Rightarrow> bool" where
  "str_includes [] p = (p = [])"
| "str_includes (c # cs) p = (startsWith (c # cs) p \<or> str_includes cs p)"

fun split_sep :: "char \<Rightarrow> string \<Rightarrow> string list" where
  "split_sep sep [] = [[]]"
| "split_sep sep (c # cs) =
     (if c = sep then [] # split_sep sep cs
      else (case split_sep sep cs of
              [] \<Rightarrow> [[c]]
            | s # ss \<Rightarrow> (c # s) # ss))"

fun join_sep :: "string \<Rightarrow> string list \<Rightarrow> string" where
  "join_sep sep [] = []"
| "join_sep sep [s] = s"
| "join_sep sep (s # t # ss) = s @ sep @ join_sep sep (t # ss)"

definition lower_char :: "char \<Rightarrow> char" where
  "lower_char c =
     (let n = (of_char c :: nat)
      in if 65 \<le> n \<and> n \<le> 90 then char_of (n + 32) else c)"

definition toLowerCase :: "string \<Rightarrow> string" where
  "toLowerCase s = map lower_char s"

section \<open>The POSIX \<open>path\<close> module\<close>

text \<open>
  The client imports Node's \<open>path\<close> module; on POSIX \<open>path.sep\<close> is the slash. The module
  works on the slash-separated segments of a path: empty segments and \<open>.\<close> are dropped,
  \<open>..\<close> removes the segment before it, and only a relative path keeps a \<open>..\<close> that has
  nothing to remove. The stack of segments is kept with its top first.
\<close>

definition path_sep :: char where
  "path_sep = CHR ''/''"

definition isAbsolute :: "string \<Rightarrow> bool" where
  "isAbsolute p = (case p of [] \<Rightarrow> False | c # _ \<Rightarrow> c = CHR ''/'')"

definition norm_step :: "bool \<Rightarrow> string list \<Rightarrow> string \<Rightarrow> string list" where
  "norm_step allowAboveRoot stk seg =
     (if seg = [] \<or> seg = ''.'' then stk
      else if seg = ''..'' then
        (case stk of
           [] \<Rightarrow> if allowAboveRoot then [''..''] else []
         | t # ts \<Rightarrow>
             if t = ''..'' then (if allowAboveRoot then ''..'' # stk else stk) else ts)
      else seg # stk)"

definition norm_segs :: "bool \<Rightarrow> string list \<Rightarrow> string list" where
  "norm_segs allowAboveRoot segs = rev (foldl (norm_step allowAboveRoot) [] segs)"

definition normalizeString :: "string \<Rightarrow> bool \<Rightarrow> string" where
  "normalizeString p allowAboveRoot =
     join_sep ''/'' (norm_segs allowAboveRoot (split_sep CHR ''/'' p))"

text \<open>
  \<open>path.resolve\<close> reads its arguments from the right, ending with the working directory,
  until one of them is absolute, and normalizes the concatenation.
\<close>

fun resolve_args :: "string list \<Rightarrow> string \<Rightarrow> string \<times> bool" where
  "resolve_args [] acc = (acc, False)"
| "resolve_args (p # ps) acc =
     (if p = [] then resolve_args ps acc
      else if isAbsolute p then (p @ ''/'' @ acc, True)
      else resolve_args ps (p @ ''/'' @ acc))"

definition path_resolve :: "string \<Rightarrow> string list \<Rightarrow> string" where
  "path_resolve wd args =
     (case resolve_args (rev args @ [wd]) [] of
        (resolvedPath, resolvedAbsolute) \<Rightarrow>
          (let n = normalizeString resolvedPath (\<not> resolvedAbsolute)
           in if resolvedAbsolute then ''/'' @ n
              else if n \<noteq> [] then n else ''.''))"

definition path_normalize :: "string \<Rightarrow> string" where
  "path_normalize p =
     (if p = [] then ''.''
      else
        (let isAbs = isAbsolute p;
             trailingSeparator = (last p = CHR ''/'');
             n = normalizeString p (\<not> isAbs)
         in if n = [] then (if isAbs then ''/'' else if trailingSeparator then ''./'' else ''.'')
            else (if isAbs then ''/'' else []) @ n @ (if trailingSeparator then ''/'' else [])))"

definition path_join :: "string list \<Rightarrow> string" where
  "path_join args =
     (let parts = filter (\<lambda>a. a \<noteq> []) args
      in if parts = [] then ''.'' else path_normalize (join_sep ''/'' parts))"

text \<open>
  \<open>path.relative\<close> resolves both paths, drops the segments they share from the front, climbs
  out of what is left of \<open>from\<close> and descends into what is left of \<open>to\<close>.
\<close>

definition abs_segs :: "string \<Rightarrow> string list" where
  "abs_segs p = filter (\<lambda>s. s \<noteq> []) (split_sep CHR ''/'' p)"

fun strip_common :: "string list \<Rightarrow> string list \<Rightarrow> string list \<times> string list" where
  "strip_common (x # xs) (y # ys) =
     (if x = y then strip_common xs ys else (x # xs, y # ys))"
| "strip_common xs ys = (xs, ys)"

definition path_relative :: "string \<Rightarrow> string \<Rightarrow> string \<Rightarrow> string" where
  "path_relative wd from to =
     (if from = to then []
      else
        (let f = path_resolve wd [from]; t = path_resolve wd [to]
         in if f = t then []
            else (case strip_common (abs_segs f) (abs_segs t) of
                    (fs, ts) \<Rightarrow> join_sep ''/'' (replicate (length fs) ''..'' @ ts))))"

text \<open>
  \<open>path.basename\<close> with a suffix, and \<open>path.dirname\<close>, for paths without trailing
  separators (what \<open>path.relative\<close> and \<open>path.resolve\<close> return).
\<close>

definition path_basename :: "string \<Rightarrow> string \<Rightarrow> string" where
  "path_basename p suffix =
     (if suffix \<noteq> [] \<and> p = suffix then []
      else
        (let seg = last (split_sep CHR ''/'' p)
         in if suffix \<noteq> [] \<and> endsWith seg suffix \<and> seg \<noteq> suffix
            then take (length seg - length suffix) seg
            else seg))"

definition path_dirname :: "string \<Rightarrow> string" where
  "path_dirname p =
     (let segs = split_sep CHR ''/'' p
      in if length segs \<le> 1 then ''.''
         else
           (let d = join_sep ''/'' (butlast segs)
            in if d = [] then ''/'' else d))"

section \<open>The data model\<close>

text \<open>
  Front matter is a property bag; the client looks only at whether it has keys and at its
  \<open>tags\<close> property, which is a string or an array of strings. Dates are milliseconds.
\<close>

datatype fmval = FmStr string | FmArr "string list"

type_synonym fm_data = "(string \<times> fmval) list"

record VaultNote =
  path :: string
  name :: string
  content :: string
  frontmatter :: fm_data
  links :: "string list"
  backlinks :: "string list"
  tags :: "string list"
  lastModified :: int
  created :: int
  wordCount :: nat

type_synonym fuse_result = "VaultNote \<times> real option \<times> string list option"

text \<open>
  The errors the client throws, by their messages, and the errors thrown by the file
  system and by the front-matter library.
\<close>

datatype error =
    AccessDeniedHidden
  | AccessDeniedOutside string "string list"
  | NotADirectory string
  | CannotAccess string
  | NoteNotFound string
  | FailedToCreate
  | IOError string
  | LibraryError string

text \<open>
  What the client takes from outside: the working directory and the home directory of
  the process, the front-matter library (\<open>matter\<close> and \<open>matter.stringify\<close>, which can
  throw) and the ranked search of the search library over the collection an index was
  built from.
\<close>

record env =
  cwd :: string
  homedir :: string
  matter :: "string \<Rightarrow> error + fm_data \<times> string"
  matter_stringify :: "string \<Rightarrow> fm_data \<Rightarrow> error + string"
  fuse_search :: "VaultNote list \<Rightarrow> string \<Rightarrow> fuse_result list"

text \<open>
  The file system is a tree; a file has its text, its modification time and its birth time.
\<close>

datatype fnode = File string int int | Dir "(string \<times> fnode) list"

datatype log_level = LInfo | LWarn | LError

text \<open>
  The state is the client object (the vault path, the allowed directories, the note cache,
  the two link graphs, the watcher and the search index) together with the file system it
  works on, a clock and the log it writes. A JavaScript \<open>Map\<close> is an association list in
  insertion order, a \<open>Set\<close> a list without duplicates in insertion order. The watcher is
  the directory it watches, or nothing once it is closed. The search index is the
  collection it was built from.
\<close>

record state =
  vaultPath :: string
  allowedDirectories :: "string list"
  noteCache :: "(string \<times> VaultNote) list"
  linkGraph :: "(string \<times> string list) list"
  backlinksGraph :: "(string \<times> string list) list"
  watcher :: "string option"
  searchIndex :: "VaultNote list option"
  fsroot :: fnode
  clock :: int
  logs :: "(log_level \<times> string) list"

definition set_add :: "'a \<Rightarrow> 'a list \<Rightarrow> 'a list" where
  "set_add x s = (if x \<in> set s then s else s @ [x])"

definition set_of_list :: "'a list \<Rightarrow> 'a list" where
  "set_of_list xs = foldl (\<lambda>s x. set_add x s) [] xs"

definition logger :: "log_level \<Rightarrow> string \<Rightarrow> state \<Rightarrow> state" where
  "logger lvl msg st = st\<lparr>logs := logs st @ [(lvl, msg)]\<rparr>"

section \<open>The file system\<close>

record stats =
  isDirectory :: bool
  mtime :: int
  birthtime :: int

fun lookup_node :: "fnode \<Rightarrow> string list \<Rightarrow> fnode option" where
  "lookup_node n [] = Some n"
| "lookup_node n (s # ss) =
     (case n of
        File _ _ _ \<Rightarrow> None
      | Dir es \<Rightarrow> (case map_of es s of None \<Rightarrow> None | Some ch \<Rightarrow> lookup_node ch ss))"

fun write_node :: "fnode \<Rightarrow> string list \<Rightarrow> string \<Rightarrow> int \<Rightarrow> fnode option" where
  "write_node n [] c t =
     (case n of File _ _ b \<Rightarrow> Some (File c t b) | Dir _ \<Rightarrow> None)"
| "write_node n (s # ss) c t =
     (case n of
        File _ _ _ \<Rightarrow> None
      | Dir es \<Rightarrow>
          (case map_of es s of
             None \<Rightarrow> if ss = [] then Some (Dir (es @ [(s, File c t t)])) else None
           | Some ch \<Rightarrow>
               (case write_node ch ss c t of
                  None \<Rightarrow> None
                | Some ch' \<Rightarrow> Some (Dir (AList.update s ch' es)))))"

fun mkdirp :: "fnode \<Rightarrow> string list \<Rightarrow> fnode option" where
  "mkdirp n [] = (case n of File _ _ _ \<Rightarrow> None | Dir _ \<Rightarrow> Some n)"
| "mkdirp n (s # ss) =
     (case n of
        File _ _ _ \<Rightarrow> None
      | Dir es \<Rightarrow>
          (case mkdirp (case map_of es s of None \<Rightarrow> Dir [] | Some ch \<Rightarrow> ch) ss of
             None \<Rightarrow> None
           | Some ch' \<Rightarrow> Some (Dir (AList.update s ch' es))))"

fun remove_node :: "fnode \<Rightarrow> string list \<Rightarrow> fnode" where
  "remove_node n [] = n"
| "remove_node n [s] =
     (case n of File _ _ _ \<Rightarrow> n | Dir es \<Rightarrow> Dir (AList.delete s es))"
| "remove_node n (s # ss) =
     (case n of
        File _ _ _ \<Rightarrow> n
      | Dir es \<Rightarrow>
          (case map_of es s of
             None \<Rightarrow> n
           | Some ch \<Rightarrow> Dir (AList.update s (remove_node ch ss) es)))"

definition fs_segs :: "env \<Rightarrow> string \<Rightarrow> string list" where
  "fs_segs e p = abs_segs (path_resolve (cwd e) [p])"

definition fs_stat :: "env \<Rightarrow> state \<Rightarrow> string \<Rightarrow> error + stats" where
  "fs_stat e st p =
     (case lookup_node (fsroot st) (fs_segs e p) of
        None \<Rightarrow> Inl (IOError ''ENOENT'')
      | Some (File _ m b) \<Rightarrow> Inr \<lparr>isDirectory = False, mtime = m, birthtime = b\<rparr>
      | Some (Dir _) \<Rightarrow> Inr \<lparr>isDirectory = True, mtime = 0, birthtime = 0\<rparr>)"

definition fs_readFile :: "env \<Rightarrow> state \<Rightarrow> string \<Rightarrow> error + string" where
  "fs_readFile e st p =
     (case lookup_node (fsroot st) (fs_segs e p) of
        None \<Rightarrow> Inl (IOError ''ENOENT'')
      | Some (File c _ _) \<Rightarrow> Inr c
      | Some (Dir _) \<Rightarrow> Inl (IOError ''EISDIR''))"

definition fs_pathExists :: "env \<Rightarrow> state \<Rightarrow> string \<Rightarrow> bool" where
  "fs_pathExists e st p = (lookup_node (fsroot st) (fs_segs e p) \<noteq> None)"

definition fs_readdir :: "env \<Rightarrow> state \<Rightarrow> string \<Rightarrow> error + (string \<times> fnode) list" where
  "fs_readdir e st p =
     (case lookup_node (fsroot st) (fs_segs e p) of
        None \<Rightarrow> Inl (IOError ''ENOENT'')
      | Some (File _ _ _) \<Rightarrow> Inl (IOError ''ENOTDIR'')
      | Some (Dir es) \<Rightarrow> Inr es)"

definition fs_writeFile :: "env \<Rightarrow> state \<Rightarrow> string \<Rightarrow> string \<Rightarrow> error + state" where
  "fs_writeFile e st p c =
     (case write_node (fsroot st) (fs_segs e p) c (clock st) of
        None \<Rightarrow> Inl (IOError ''write'')
      | Some r \<Rightarrow> Inr (st\<lparr>fsroot := r, clock := clock st + 1\<rparr>))"

definition fs_ensureDir :: "env \<Rightarrow> state \<Rightarrow> string \<Rightarrow> error + state" where
  "fs_ensureDir e st p =
     (case mkdirp (fsroot st) (fs_segs e p) of
        None \<Rightarrow> Inl (IOError ''mkdir'')
      | Some r \<Rightarrow> Inr (st\<lparr>fsroot := r\<rparr>))"

definition fs_remove :: "env \<Rightarrow> state \<Rightarrow> string \<Rightarrow> error + state" where
  "fs_remove e st p =
     (if fs_segs e p = [] then Inl (IOError ''EBUSY'')
      else Inr (st\<lparr>fsroot := remove_node (fsroot st) (fs_segs e p)\<rparr>))"

section \<open>The client: path guard\<close>

definition normalizePath :: "string \<Rightarrow> string" where
  "normalizePath p = toLowerCase (path_normalize p)"

definition expandHome :: "env \<Rightarrow> string \<Rightarrow> string" where
  "expandHome e filepath =
     (if startsWith filepath ''~/'' \<or> filepath = ''~''
      then path_join [homedir e, drop 1 filepath]
      else filepath)"

text \<open>
  The constructor, which starts the watcher on the vault path (\<open>initializeWatcher\<close>), and
  \<open>dispose\<close>, which closes it.
\<close>

definition new_client :: "env \<Rightarrow> fnode \<Rightarrow> string \<Rightarrow> state" where
  "new_client e fs0 vp =
     \<lparr>vaultPath = expandHome e vp,
      allowedDirectories = [normalizePath (path_resolve (cwd e) [expandHome e vp])],
      noteCache = [], linkGraph = [], backlinksGraph = [],
      watcher = Some (expandHome e vp), searchIndex = None,
      fsroot = fs0, clock = 0, logs = []\<rparr>"

definition dispose :: "state \<Rightarrow> state" where
  "dispose st = st\<lparr>watcher := None\<rparr>"

definition validatePath :: "env \<Rightarrow> state \<Rightarrow> string \<Rightarrow> error + string" where
  "validatePath e st requestedPath =
     (let pathParts = split_sep path_sep requestedPath
      in if list_ex (\<lambda>part. startsWith part ''.'') pathParts then Inl AccessDeniedHidden
         else
           (let expandedPath = expandHome e requestedPath;
                absolute = (if isAbsolute expandedPath
                            then path_resolve (cwd e) [expandedPath]
                            else path_resolve (cwd e) [vaultPath st, expandedPath]);
                normalizedRequested = normalizePath absolute;
                isAllowed = list_ex (\<lambda>dir. startsWith normalizedRequested dir)
                              (allowedDirectories st)
            in if \<not> isAllowed
               then Inl (AccessDeniedOutside absolute (allowedDirectories st))
               else Inr absolute))"

section \<open>The client: parsing a note\<close>

text \<open>
  A global regular expression is run from the left: where the pattern matches, the match's
  group is kept and the scan goes on behind the match, and where it does not, the scan
  moves one character on. Each of the client's patterns is a fixed prefix and runs of
  characters outside a stop set, each run as long as possible, so a match at a position is
  a function of the text there; a match is never empty.
\<close>

function (sequential) scan_all :: "(string \<Rightarrow> (string \<times> string) option) \<Rightarrow> string \<Rightarrow> string list" where
  "scan_all m [] = []"
| "scan_all m (c # cs) =
     (case m (c # cs) of
        None \<Rightarrow> scan_all m cs
      | Some (g, rest) \<Rightarrow>
          if length rest \<le> length cs then g # scan_all m rest else g # scan_all m cs)"
  by pat_completeness auto
termination
  by (relation "measure (\<lambda>(m, s). length s)") auto

text \<open>Wiki links, \<open>[[link]]\<close> or \<open>[[link|alias]]\<close>.\<close>

definition wikiLinkRegex :: "string \<Rightarrow> (string \<times> string) option" where
  "wikiLinkRegex s =
     (if \<not> startsWith s ''[['' then None
      else
        (let r = drop 2 s;
             g = takeWhile (\<lambda>c. c \<noteq> CHR '']'' \<and> c \<noteq> CHR ''|'') r;
             r1 = dropWhile (\<lambda>c. c \<noteq> CHR '']'' \<and> c \<noteq> CHR ''|'') r;
             r2 = (if startsWith r1 ''|'' then dropWhile (\<lambda>c. c \<noteq> CHR '']'') (drop 1 r1) else r1)
         in if g \<noteq> [] \<and> startsWith r2 '']]'' then Some (g, drop 2 r2) else None))"

text \<open>Markdown links, \<open>[text](link)\<close>; the group kept is the link.\<close>

definition mdLinkRegex :: "string \<Rightarrow> (string \<times> string) option" where
  "mdLinkRegex s =
     (if \<not> startsWith s ''['' then None
      else
        (let r = drop 1 s;
             t = takeWhile (\<lambda>c. c \<noteq> CHR '']'') r;
             r1 = dropWhile (\<lambda>c. c \<noteq> CHR '']'') r;
             r2 = drop 2 r1;
             g = takeWhile (\<lambda>c. c \<noteq> CHR '')'') r2;
             r3 = dropWhile (\<lambda>c. c \<noteq> CHR '')'') r2
         in if t \<noteq> [] \<and> startsWith r1 ''](''  \<and> g \<noteq> [] \<and> startsWith r3 '')''
            then Some (g, drop 1 r3) else None))"

text \<open>Embeds, \<open>![[image]]\<close>.\<close>

definition embedRegex :: "string \<Rightarrow> (string \<times> string) option" where
  "embedRegex s =
     (if \<not> startsWith s ''![['' then None
      else
        (let r = drop 3 s;
             g = takeWhile (\<lambda>c. c \<noteq> CHR '']'') r;
             r1 = dropWhile (\<lambda>c. c \<noteq> CHR '']'') r
         in if g \<noteq> [] \<and> startsWith r1 '']]'' then Some (g, drop 2 r1) else None))"

definition parseMarkdown :: "string \<Rightarrow> string list" where
  "parseMarkdown body =
     set_of_list
       (scan_all wikiLinkRegex body
        @ filter (\<lambda>l. \<not> startsWith l ''http'') (scan_all mdLinkRegex body)
        @ scan_all embedRegex body)"

definition tag_char :: "char \<Rightarrow> bool" where
  "tag_char c =
     (let n = (of_char c :: nat)
      in (97 \<le> n \<and> n \<le> 122) \<or> (65 \<le> n \<and> n \<le> 90) \<or> (48 \<le> n \<and> n \<le> 57)
         \<or> c = CHR ''_'' \<or> c = CHR ''/'' \<or> c = CHR ''-'')"

definition inlineTagRegex :: "string \<Rightarrow> (string \<times> string) option" where
  "inlineTagRegex s =
     (if \<not> startsWith s ''#'' then None
      else
        (let g = takeWhile tag_char (drop 1 s)
         in if g \<noteq> [] then Some (g, dropWhile tag_char (drop 1 s)) else None))"

definition fm_truthy :: "fmval \<Rightarrow> bool" where
  "fm_truthy v = (case v of FmStr s \<Rightarrow> s \<noteq> [] | FmArr _ \<Rightarrow> True)"

definition extractTags :: "string \<Rightarrow> fm_data \<Rightarrow> string list" where
  "extractTags body fm =
     (let fmTags = (case map_of fm ''tags'' of
                      None \<Rightarrow> []
                    | Some v \<Rightarrow>
                        if fm_truthy v
                        then (case v of FmArr ts \<Rightarrow> ts | FmStr t \<Rightarrow> [t])
                        else [])
      in set_of_list (fmTags @ scan_all inlineTagRegex body))"

text \<open>
  The word count is the number of pieces \<open>split(/\s+/)\<close> cuts the body into: one more than
  the number of maximal runs of white space (here the ASCII white space).
\<close>

definition is_space :: "char \<Rightarrow> bool" where
  "is_space c = (let n = (of_char c :: nat) in n = 32 \<or> (9 \<le> n \<and> n \<le> 13))"

fun ws_runs :: "bool \<Rightarrow> string \<Rightarrow> nat" where
  "ws_runs inws [] = 0"
| "ws_runs inws (c # cs) =
     (if is_space c then (if inws then 0 else 1) + ws_runs True cs else ws_runs False cs)"

definition split_ws_length :: "string \<Rightarrow> nat" where
  "split_ws_length body = 1 + ws_runs False body"

section \<open>The client: cache and link graphs\<close>

text \<open>
  \<open>updateCacheEntry\<close> reads and parses the file in one \<open>try\<close> block and logs any failure
  without changing the cache. The creation time is \<open>stats.birthtime || stats.mtime\<close>; the
  birth time is a date object, which is never false.
\<close>

definition updateCacheEntry :: "env \<Rightarrow> state \<Rightarrow> string \<Rightarrow> state" where
  "updateCacheEntry e st relativePath =
     (let fullPath = path_join [vaultPath st, relativePath];
          failed = logger LError (''Failed to update cache for '' @ relativePath @ '':'') st
      in case fs_stat e st fullPath of
           Inl _ \<Rightarrow> failed
         | Inr stats \<Rightarrow>
             (case fs_readFile e st fullPath of
                Inl _ \<Rightarrow> failed
              | Inr raw \<Rightarrow>
                  (case matter e raw of
                     Inl _ \<Rightarrow> failed
                   | Inr (fm, bodyContent) \<Rightarrow>
                       (let note = \<lparr>path = relativePath,
                                    name = path_basename relativePath ''.md'',
                                    content = bodyContent,
                                    frontmatter = fm,
                                    links = parseMarkdown bodyContent,
                                    backlinks = [],
                                    tags = extractTags bodyContent fm,
                                    lastModified = mtime stats,
                                    created = birthtime stats,
                                    wordCount = split_ws_length bodyContent\<rparr>
                        in st\<lparr>noteCache := AList.update relativePath note (noteCache st)\<rparr>))))"

definition removeFromCache :: "state \<Rightarrow> string \<Rightarrow> state" where
  "removeFromCache st relativePath =
     st\<lparr>noteCache := AList.delete relativePath (noteCache st),
        linkGraph := map (\<lambda>(k, ls). (k, removeAll relativePath ls))
                       (AList.delete relativePath (linkGraph st)),
        backlinksGraph := map (\<lambda>(k, bs). (k, removeAll relativePath bs))
                            (AList.delete relativePath (backlinksGraph st))\<rparr>"

definition resolveLink_in :: "VaultNote list \<Rightarrow> string \<Rightarrow> VaultNote option" where
  "resolveLink_in notes link =
     (let cleanLink = (if endsWith link ''.md'' then take (length link - 3) link else link)
      in case find (\<lambda>n. name n = cleanLink \<or> path n = cleanLink) notes of
           Some n \<Rightarrow> Some n
         | None \<Rightarrow>
             find (\<lambda>n. str_includes (toLowerCase (name n)) (toLowerCase cleanLink)) notes)"

definition resolveLink :: "state \<Rightarrow> string \<Rightarrow> VaultNote option" where
  "resolveLink st link = resolveLink_in (map snd (noteCache st)) link"

text \<open>
  \<open>buildLinkGraphs\<close>: both graphs are cleared and get an empty set for every note; every
  link of every note that resolves is added to the note's forward set and the note to the
  target's backward set; then every note's \<open>backlinks\<close> array is copied from the graph.
\<close>

type_synonym graphs = "(string \<times> string list) list \<times> (string \<times> string list) list"

definition add_link :: "VaultNote list \<Rightarrow> VaultNote \<Rightarrow> graphs \<Rightarrow> string \<Rightarrow> graphs" where
  "add_link notes note g link =
     (case resolveLink_in notes link of
        None \<Rightarrow> g
      | Some targetNote \<Rightarrow>
          (AList.map_entry (path note) (set_add (path targetNote)) (fst g),
           AList.map_entry (path targetNote) (set_add (path note)) (snd g)))"

definition add_note_links :: "VaultNote list \<Rightarrow> graphs \<Rightarrow> VaultNote \<Rightarrow> graphs" where
  "add_note_links notes g note = foldl (add_link notes note) g (links note)"

definition init_graph :: "VaultNote list \<Rightarrow> (string \<times> string list) list" where
  "init_graph notes = foldl (\<lambda>g n. AList.update (path n) [] g) [] notes"

definition buildLinkGraphs :: "state \<Rightarrow> state" where
  "buildLinkGraphs st =
     (let notes = map snd (noteCache st);
          g = foldl (add_note_links notes) (init_graph notes, init_graph notes) notes
      in st\<lparr>linkGraph := fst g,
            backlinksGraph := snd g,
            noteCache := map (\<lambda>(k, n). (k, case map_of (snd g) (path n) of
                                            None \<Rightarrow> n
                                          | Some bs \<Rightarrow> n\<lparr>backlinks := bs\<rparr>))
                           (noteCache st)\<rparr>)"

definition rebuildSearchIndex :: "state \<Rightarrow> state" where
  "rebuildSearchIndex st = st\<lparr>searchIndex := Some (map snd (noteCache st))\<rparr>"

section \<open>The client: initialization and the watcher\<close>

text \<open>
  \<open>findMarkdownFiles\<close> lists a directory and descends into its subdirectories; on the tree
  the listing of a subdirectory is the subtree's entry list.
\<close>

fun findMarkdownFiles_entries :: "string \<Rightarrow> (string \<times> fnode) list \<Rightarrow> string list" where
  "findMarkdownFiles_entries dir [] = []"
| "findMarkdownFiles_entries dir ((nm, File c m b) # es) =
     (if startsWith nm ''.'' then []
      else if endsWith nm ''.md'' then [path_join [dir, nm]] else [])
     @ findMarkdownFiles_entries dir es"
| "findMarkdownFiles_entries dir ((nm, Dir sub) # es) =
     (if startsWith nm ''.'' then []
      else findMarkdownFiles_entries (path_join [dir, nm]) sub)
     @ findMarkdownFiles_entries dir es"

definition findMarkdownFiles :: "env \<Rightarrow> state \<Rightarrow> string \<Rightarrow> error + string list" where
  "findMarkdownFiles e st dir =
     (case fs_readdir e st dir of
        Inl err \<Rightarrow> Inl err
      | Inr entries \<Rightarrow> Inr (findMarkdownFiles_entries dir entries))"

definition scanVault :: "env \<Rightarrow> state \<Rightarrow> error + state" where
  "scanVault e st =
     (case findMarkdownFiles e st (vaultPath st) of
        Inl err \<Rightarrow> Inl err
      | Inr markdownFiles \<Rightarrow>
          Inr (foldl (\<lambda>s filePath.
                        updateCacheEntry e s (path_relative (cwd e) (vaultPath s) filePath))
                 st markdownFiles))"

text \<open>
  \<open>initializeVault\<close>: the check of the vault path is one \<open>try\<close> block, whose \<open>catch\<close> throws
  the error the caller sees.
\<close>

definition initializeVault :: "env \<Rightarrow> state \<Rightarrow> state \<times> (error + unit)" where
  "initializeVault e st0 =
     (let st = logger LInfo (''Initializing vault at: '' @ vaultPath st0) st0;
          tried = (case fs_stat e st (vaultPath st) of
                     Inl err \<Rightarrow> Inl err
                   | Inr stats \<Rightarrow>
                       if \<not> isDirectory stats then Inl (NotADirectory (vaultPath st))
                       else Inr ())
      in case tried of
           Inl _ \<Rightarrow> (st, Inl (CannotAccess (vaultPath st)))
         | Inr _ \<Rightarrow>
             (case scanVault e st of
                Inl err \<Rightarrow> (st, Inl err)
              | Inr st1 \<Rightarrow>
                  (logger LInfo ''Vault initialized''
                     (rebuildSearchIndex (buildLinkGraphs st1)), Inr ())))"

datatype fs_event = Add | Change | Delete

text \<open>
  \<open>handleFileChange\<close> is what the watcher calls. Nothing in its \<open>try\<close> block throws:
  \<open>updateCacheEntry\<close> catches and logs its own failures.
\<close>

definition handleFileChange :: "env \<Rightarrow> state \<Rightarrow> string \<Rightarrow> fs_event \<Rightarrow> state" where
  "handleFileChange e st filePath ev =
     (if \<not> endsWith filePath ''.md'' then st
      else
        (let relativePath = path_relative (cwd e) (vaultPath st) filePath;
             st1 = (case ev of
                      Delete \<Rightarrow> removeFromCache st relativePath
                    | Add \<Rightarrow> updateCacheEntry e st relativePath
                    | Change \<Rightarrow> updateCacheEntry e st relativePath)
         in rebuildSearchIndex st1))"

section \<open>The client: public operations\<close>

definition createNote :: "env \<Rightarrow> state \<Rightarrow> string \<Rightarrow> string \<Rightarrow> fm_data option \<Rightarrow> state \<times> (error + VaultNote)" where
  "createNote e st notePath cont fmo =
     (case validatePath e st notePath of
        Inl err \<Rightarrow> (st, Inl err)
      | Inr validPath \<Rightarrow>
          (let notePath' = (if \<not> endsWith validPath ''.md'' then notePath @ ''.md'' else notePath)
           in case (case fmo of
                      None \<Rightarrow> Inr cont
                    | Some fm \<Rightarrow> if fm \<noteq> [] then matter_stringify e cont fm else Inr cont) of
                Inl err \<Rightarrow> (st, Inl err)
              | Inr fileContent \<Rightarrow>
                  (case fs_ensureDir e st (path_dirname validPath) of
                     Inl err \<Rightarrow> (st, Inl err)
                   | Inr st1 \<Rightarrow>
                       (case fs_writeFile e st1 validPath fileContent of
                          Inl err \<Rightarrow> (st1, Inl err)
                        | Inr st2 \<Rightarrow>
                            (let relativePath = path_relative (cwd e) (vaultPath st2) validPath;
                                 st3 = rebuildSearchIndex
                                         (buildLinkGraphs (updateCacheEntry e st2 relativePath))
                             in case map_of (noteCache st3) relativePath of
                                  None \<Rightarrow> (st3, Inl FailedToCreate)
                                | Some n \<Rightarrow>
                                    (logger LInfo (''Created note: '' @ relativePath) st3,
                                     Inr n))))))"

definition updateNote :: "env \<Rightarrow> state \<Rightarrow> string \<Rightarrow> string option \<Rightarrow> fm_data option \<Rightarrow> state \<times> (error + VaultNote option)" where
  "updateNote e st notePath conto fmo =
     (case validatePath e st notePath of
        Inl err \<Rightarrow> (st, Inl err)
      | Inr validPath \<Rightarrow>
          (let relativePath = path_relative (cwd e) (vaultPath st) validPath
           in case map_of (noteCache st) relativePath of
                None \<Rightarrow> (st, Inl (NoteNotFound relativePath))
              | Some existingNote \<Rightarrow>
                  (let newContent = (case conto of None \<Rightarrow> content existingNote | Some c \<Rightarrow> c);
                       newFrontmatter = (case fmo of None \<Rightarrow> frontmatter existingNote | Some f \<Rightarrow> f)
                   in case matter_stringify e newContent newFrontmatter of
                        Inl err \<Rightarrow> (st, Inl err)
                      | Inr fileContent \<Rightarrow>
                          (case fs_writeFile e st validPath fileContent of
                             Inl err \<Rightarrow> (st, Inl err)
                           | Inr st1 \<Rightarrow>
                               (let st2 = rebuildSearchIndex
                                            (buildLinkGraphs (updateCacheEntry e st1 relativePath))
                                in (logger LInfo (''Updated note: '' @ relativePath) st2,
                                    Inr (map_of (noteCache st2) relativePath)))))))"

definition deleteNote :: "env \<Rightarrow> state \<Rightarrow> string \<Rightarrow> state \<times> (error + unit)" where
  "deleteNote e st notePath =
     (case validatePath e st notePath of
        Inl err \<Rightarrow> (st, Inl err)
      | Inr validPath \<Rightarrow>
          (let relativePath = path_relative (cwd e) (vaultPath st) validPath
           in if map_of (noteCache st) relativePath = None
              then (st, Inl (NoteNotFound relativePath))
              else
                (case fs_remove e st validPath of
                   Inl err \<Rightarrow> (st, Inl err)
                 | Inr st1 \<Rightarrow>
                     (logger LInfo (''Deleted note: '' @ relativePath)
                        (rebuildSearchIndex (removeFromCache st1 relativePath)), Inr ()))))"

definition readNote :: "env \<Rightarrow> state \<Rightarrow> string \<Rightarrow> state \<times> (error + VaultNote)" where
  "readNote e st notePath =
     (case validatePath e st notePath of
        Inl err \<Rightarrow> (st, Inl err)
      | Inr validPath \<Rightarrow>
          (let relativePath = path_relative (cwd e) (vaultPath st) validPath;
               st1 = (if map_of (noteCache st) relativePath = None \<and> fs_pathExists e st validPath
                      then updateCacheEntry e st relativePath else st)
           in case map_of (noteCache st1) relativePath of
                None \<Rightarrow> (st1, Inl (NoteNotFound relativePath))
              | Some n \<Rightarrow> (st1, Inr n)))"





definition getBacklinks :: "state \<Rightarrow> string \<Rightarrow> string list" where
  "getBacklinks st notePath =
     (case map_of (noteCache st) notePath of None \<Rightarrow> [] | Some n \<Rightarrow> backlinks n)"

definition getForwardLinks :: "state \<Rightarrow> string \<Rightarrow> string list" where
  "getForwardLinks st notePath =
     (case map_of (linkGraph st) notePath of None \<Rightarrow> [] | Some linkSet \<Rightarrow> linkSet)"

record LinkAnalysis =
  totalLinks :: nat
  brokenLinks :: "string list"
  orphanedNotes :: "string list"
  centralNotes :: "(string \<times> nat) list"
  clusters :: "string list list"

definition graph_size :: "(string \<times> string list) list \<Rightarrow> string \<Rightarrow> nat" where
  "graph_size g k = (case map_of g k of None \<Rightarrow> 0 | Some s \<Rightarrow> length s)"

definition analyzeLinkNetwork :: "state \<Rightarrow> LinkAnalysis" where
  "analyzeLinkNetwork st =
     (let notes = map snd (noteCache st)
      in \<lparr>totalLinks = sum_list (map (\<lambda>(k, ls). length ls) (linkGraph st)),
          brokenLinks =
            concat (map (\<lambda>n. map (\<lambda>l. path n @ '': '' @ l)
                                (filter (\<lambda>l. resolveLink st l = None) (links n))) notes),
          orphanedNotes =
            map path (filter (\<lambda>n. graph_size (backlinksGraph st) (path n) = 0
                                  \<and> graph_size (linkGraph st) (path n) = 0) notes),
          centralNotes =
            take 10 (sort_key (\<lambda>(k, c). - int c)
                       (map (\<lambda>k. (k, graph_size (backlinksGraph st) k + graph_size (linkGraph st) k))
                          (map fst (noteCache st)))),
          clusters = []\<rparr>)"

record VaultStatistics =
  totalNotes :: nat
  totalWords :: nat
  averageWordsPerNote :: "int option"
  totalTags :: nat
  mostUsedTags :: "(string \<times> nat) list"
  recentNotes :: "(string \<times> int) list"

definition getMostUsedTags :: "state \<Rightarrow> nat \<Rightarrow> (string \<times> nat) list" where
  "getMostUsedTags st cap =
     take cap
       (sort_key (\<lambda>(t, c). - int c)
          (foldl (\<lambda>m t. AList.update t ((case map_of m t of None \<Rightarrow> 0 | Some c \<Rightarrow> c) + 1) m) []
             (concat (map (\<lambda>(k, n). tags n) (noteCache st)))))"

text \<open>
  \<open>Math.round\<close> of a quotient of two counts: the nearest integer, a half rounded up; the
  quotient of zero by zero is not a number, and neither is its rounding (\<open>None\<close>).
\<close>

definition Math_round :: "real \<Rightarrow> int" where
  "Math_round x = \<lfloor>x + 1 / 2\<rfloor>"

definition getVaultStatistics :: "state \<Rightarrow> VaultStatistics" where
  "getVaultStatistics st =
     (let notes = map snd (noteCache st);
          total = foldl (\<lambda>sum n. sum + wordCount n) 0 notes;
          allTags = set_of_list (concat (map tags notes))
      in \<lparr>totalNotes = length notes,
          totalWords = total,
          averageWordsPerNote =
            (if length notes = 0 then None
             else Some (Math_round (real total / real (length notes)))),
          totalTags = length allTags,
          mostUsedTags = getMostUsedTags st 5,
          recentNotes =
            map (\<lambda>n. (path n, lastModified n))
              (take 10 (sort_key (\<lambda>n. - lastModified n) notes))\<rparr>)"

section \<open>The running client\<close>

text \<open>
  The watcher reports the files that appear, change or disappear under the directory it
  watches, but for the paths its \<open>ignored\<close> pattern matches: a dot behind the start of the
  path or behind a separator, with a character other than a line break behind it.
\<close>

fun ignored_from :: "bool \<Rightarrow> string \<Rightarrow> bool" where
  "ignored_from at_sep [] = False"
| "ignored_from at_sep [c] = False"
| "ignored_from at_sep (c # d # cs) =
     ((at_sep \<and> c = CHR ''.'' \<and> d \<noteq> CHR 0x0A \<and> d \<noteq> CHR 0x0D)
      \<or> ignored_from (c = CHR ''/'' \<or> c = CHR 0x5C) (d # cs))"

definition ignored :: "string \<Rightarrow> bool" where
  "ignored p = ignored_from True p"

definition inside :: "string list \<Rightarrow> string list \<Rightarrow> bool" where
  "inside dir file = (length dir < length file \<and> take (length dir) file = dir)"

definition watched :: "env \<Rightarrow> state \<Rightarrow> string \<Rightarrow> bool" where
  "watched e st filePath =
     (case watcher st of
        None \<Rightarrow> False
      | Some dir \<Rightarrow> inside (fs_segs e dir) (fs_segs e filePath) \<and> \<not> ignored filePath)"

text \<open>What happened to the file at a path between two file systems.\<close>

definition fs_change :: "fnode \<Rightarrow> fnode \<Rightarrow> string list \<Rightarrow> fs_event option" where
  "fs_change before after segs =
     (case lookup_node after segs of
        Some (File c m b) \<Rightarrow>
          (case lookup_node before segs of
             Some (File c0 m0 b0) \<Rightarrow> if c = c0 \<and> m = m0 then None else Some Change
           | _ \<Rightarrow> Some Add)
      | _ \<Rightarrow>
          (case lookup_node before segs of
             Some (File c0 m0 b0) \<Rightarrow> Some Delete
           | _ \<Rightarrow> None))"

text \<open>
  The client's own writes and removals are in the watched directory, so the watcher
  reports them like any other: after an operation on a path has taken the file system
  from that of \<open>st0\<close> to that of \<open>st1\<close>, the event for the file, if there is one, is handled by
  \<open>handleFileChange\<close>, here once the operation has returned.
\<close>

definition deliver :: "env \<Rightarrow> state \<Rightarrow> state \<Rightarrow> string \<Rightarrow> state" where
  "deliver e st0 st1 filePath =
     (if watched e st1 filePath
      then (case fs_change (fsroot st0) (fsroot st1) (fs_segs e filePath) of
              None \<Rightarrow> st1
            | Some ev \<Rightarrow> handleFileChange e st1 filePath ev)
      else st1)"

definition notify :: "env \<Rightarrow> state \<Rightarrow> state \<Rightarrow> string \<Rightarrow> state" where
  "notify e st0 st1 notePath =
     (case validatePath e st0 notePath of
        Inl _ \<Rightarrow> st1
      | Inr validPath \<Rightarrow> deliver e st0 st1 validPath)"

text \<open>The operations that change the vault, one after the other, in the running client.\<close>

datatype vault_op =
    Create string string "fm_data option"
  | Update string "string option" "fm_data option"
  | Remove string
  | Initialize

fun apply_op :: "env \<Rightarrow> state \<Rightarrow> vault_op \<Rightarrow> state" where
  "apply_op e st (Create p c f) = notify e st (fst (createNote e st p c f)) p"
| "apply_op e st (Update p c f) = notify e st (fst (updateNote e st p c f)) p"
| "apply_op e st (Remove p) = notify e st (fst (deleteNote e st p)) p"
| "apply_op e st Initialize = fst (initializeVault e st)"

definition run_ops :: "env \<Rightarrow> state \<Rightarrow> vault_op list \<Rightarrow> state" where
  "run_ops e st ops = foldl (apply_op e) st ops"

definition cache_keys :: "state \<Rightarrow> string list" where
  "cache_keys st = map fst (noteCache st)"

text \<open>Every note is cached under its own path.\<close>

definition wf_cache :: "state \<Rightarrow> bool" where
  "wf_cache st = list_all (\<lambda>(k, n). path n = k) (noteCache st)"

section \<open>Invariants of the cache and the link graphs\<close>

text \<open>
  An edge of a graph map: \<open>b\<close> is in the set stored under \<open>a\<close>.
\<close>

definition edge :: "(string \<times> string list) list \<Rightarrow> string \<Rightarrow> string \<Rightarrow> bool" where
  "edge g a b = (case map_of g a of None \<Rightarrow> False | Some s \<Rightarrow> b \<in> set s)"

text \<open>
  What \<open>buildLinkGraphs\<close> keeps while it adds links: both maps have the keys \<open>K\<close>, and the
  backward graph is the forward graph turned around.
\<close>

definition graphs_ok :: "string set \<Rightarrow> graphs \<Rightarrow> bool" where
  "graphs_ok K g =
     (dom (map_of (fst g)) = K \<and> dom (map_of (snd g)) = K
      \<and> (\<forall>a b. edge (fst g) a b = edge (snd g) b a))"

text \<open>
  The symmetry of the two public accessors over the notes of the vault, the forward links
  being notes of the vault, and the invariant of the client: every note is cached under
  its path, the accessors are symmetric and the forward links are notes.
\<close>

definition graph_symmetric :: "state \<Rightarrow> bool" where
  "graph_symmetric st =
     list_all (\<lambda>A. list_all (\<lambda>B. (B \<in> set (getForwardLinks st A)) = (A \<in> set (getBacklinks st B)))
                      (cache_keys st)) (cache_keys st)"

definition links_closed :: "state \<Rightarrow> bool" where
  "links_closed st =
     (\<forall>A B. B \<in> set (getForwardLinks st A) \<longrightarrow> B \<in> set (cache_keys st))"

definition vault_inv :: "state \<Rightarrow> bool" where
  "vault_inv st = (wf_cache st \<and> graph_symmetric st \<and> links_closed st)"

text \<open>Two states with the same note cache and the same forward graph.\<close>

definition same_index :: "state \<Rightarrow> state \<Rightarrow> bool" where
  "same_index st st' = (noteCache st' = noteCache st \<and> linkGraph st' = linkGraph st)"

text \<open>
  A segment as \<open>path.resolve\<close> leaves it in an absolute path: not empty, not \<open>.\<close> or
  \<open>..\<close>, and without a slash.
\<close>

definition clean_seg :: "string \<Rightarrow> bool" where
  "clean_seg s = (s \<noteq> [] \<and> s \<noteq> ''.'' \<and> s \<noteq> ''..'' \<and> CHR ''/'' \<notin> set s)"

section \<open>Example vaults\<close>

text \<open>
  An environment for the examples: the process runs in \<open>/work\<close>; the texts of the
  examples have no front-matter block, which the front-matter library parses to empty data
  and the text itself, and written with empty data a text gets a final line break; the
  search returns the whole collection. The vault is the directory \<open>/vault\<close>.
\<close>

definition demo_env :: env where
  "demo_env =
     \<lparr>cwd = ''/work'', homedir = ''/home/u'',
      matter = (\<lambda>s. Inr ([], s)),
      matter_stringify =
        (\<lambda>c f. Inr (if c \<noteq> [] \<and> last c = CHR 0x0A then c else c @ [CHR 0x0A])),
      fuse_search = (\<lambda>ns q. map (\<lambda>n. (n, Some 0, None)) ns)\<rparr>"

definition demo_vault :: state where
  "demo_vault = new_client demo_env (Dir [(''vault'', Dir [])]) ''/vault''"

definition vault_note :: state where
  "vault_note = fst (createNote demo_env demo_vault ''note'' ''hello'' None)"

definition vault_abc :: state where
  "vault_abc =
     run_ops demo_env demo_vault
       [Create ''a.md'' ''[[b]]'' None, Create ''b.md'' ''see [[a]]'' None,
        Create ''aa.md'' ''x'' None]"

definition vault_a :: state where
  "vault_a = run_ops demo_env demo_vault [Create ''a.md'' ''[[b]]'' None]"

definition vault_ab :: state where
  "vault_ab = run_ops demo_env vault_a [Create ''b.md'' ''see [[a]]'' None]"

definition vault_scanned :: state where
  "vault_scanned =
     run_ops demo_env
       (new_client demo_env
          (Dir [(''vault'', Dir [(''a.md'', File ''[[b]]'' 0 0),
                               (''b.md'', File ''see [[a]]'' 0 0)])])
          ''/vault'')
       [Initialize]"

definition vault_edited :: state where
  "vault_edited =
     (case fs_writeFile demo_env vault_abc ''/vault/a.md'' ''now [[aa]]'' of
        Inl _ \<Rightarrow> vault_abc
      | Inr st \<Rightarrow> handleFileChange demo_env st ''/vault/a.md'' Change)"

definition vault_words :: state where
  "vault_words =
     run_ops demo_env demo_vault
       [Create ''one.md'' ''a b c d e f g h'' None,
        Create ''two.md'' ''the quick brown fox jumps over lazy dogs'' None,
        Create ''three.md'' ''six words are in this note'' None]"

definition vault_half :: state where
  "vault_half =
     run_ops demo_env demo_vault
       [Create ''one.md'' ''word'' None, Create ''two.md'' ''two words'' None]"

section \<open>Properties of the path functions\<close>
lemma norm_step_skip: "x = [] \<or> x = ''.'' \<Longrightarrow> norm_step al stk x = stk"
  unfolding norm_step_def by (simp only: if_True)

lemma dotdot_neq: "''..'' \<noteq> []" "''..'' \<noteq> ''.''"
  by simp_all

lemma norm_step_up:
  "norm_step False stk ''..'' = (case stk of [] \<Rightarrow> [] | t # ts \<Rightarrow> if t = ''..'' then stk else ts)"
  unfolding norm_step_def using dotdot_neq by (simp only: if_False if_True simp_thms)

lemma norm_step_push:
  "x \<noteq> [] \<Longrightarrow> x \<noteq> ''.'' \<Longrightarrow> x \<noteq> ''..'' \<Longrightarrow> norm_step al stk x = x # stk"
  unfolding norm_step_def by (simp only: if_False simp_thms)


lemma norm_step_up_subset: "set (norm_step False stk ''..'') \<subseteq> set stk"
proof (cases stk)
  case Nil
  then show ?thesis by (simp only: norm_step_up list.case set_simps subset_refl)
next
  case (Cons t ts)
  show ?thesis
  proof (cases "t = ''..''")
    case True
    with Cons have "norm_step False stk ''..'' = stk"
      by (simp only: norm_step_up list.case simp_thms if_True)
    then show ?thesis by (simp only: subset_refl)
  next
    case False
    with Cons have "norm_step False stk ''..'' = ts"
      by (simp only: norm_step_up list.case if_False)
    with Cons show ?thesis by auto
  qed
qed

lemma norm_step_clean:
  assumes "\<forall>s \<in> set stk. clean_seg s" and "CHR ''/'' \<notin> set x"
  shows "\<forall>s \<in> set (norm_step False stk x). clean_seg s"
proof (cases "x = [] \<or> x = ''.''")
  case True
  then show ?thesis using assms(1) by (simp only: norm_step_skip)
next
  case False
  note nf = this
  show ?thesis
  proof (cases "x = ''..''")
    case True
    then show ?thesis using norm_step_up_subset [of stk] assms(1) by blast
  next
    case False
    have c: "clean_seg x"
      unfolding clean_seg_def using nf False assms(2) by blast
    have "norm_step False stk x = x # stk"
      using nf False by (intro norm_step_push) blast+
    then show ?thesis using c assms(1) by simp
  qed
qed

lemma norm_clean: "\<forall>s \<in> set xs. clean_seg s \<Longrightarrow> foldl (norm_step al) stk xs = rev xs @ stk"
proof (induction xs arbitrary: stk)
  case Nil
  then show ?case by simp
next
  case (Cons x xs)
  then have "clean_seg x" by simp
  then have "norm_step al stk x = x # stk"
    unfolding clean_seg_def by (intro norm_step_push) blast+
  with Cons show ?case by simp
qed

lemma norm_stack_clean:
  "\<forall>s \<in> set stk. clean_seg s \<Longrightarrow> \<forall>x \<in> set xs. CHR ''/'' \<notin> set x
   \<Longrightarrow> \<forall>s \<in> set (foldl (norm_step False) stk xs). clean_seg s"
proof (induction xs arbitrary: stk)
  case Nil
  then show ?case by simp
next
  case (Cons x xs)
  have "\<forall>s \<in> set (norm_step False stk x). clean_seg s"
    using Cons.prems by (intro norm_step_clean) auto
  then show ?case using Cons by simp
qed

lemma split_sep_not_Nil: "split_sep c s \<noteq> []"
  by (induction s) (auto split: list.splits)

lemma split_sep_append: "split_sep c (a @ c # b) = split_sep c a @ split_sep c b"
proof (induction a)
  case Nil
  show ?case by simp
next
  case (Cons x a)
  obtain s ss where s: "split_sep c a = s # ss"
    using split_sep_not_Nil [of c a] by (cases "split_sep c a") auto
  show ?case using Cons s by simp
qed

lemma split_sep_no_sep: "c \<notin> set s \<Longrightarrow> split_sep c s = [s]"
  by (induction s) auto

lemma split_sep_free: "s \<in> set (split_sep c p) \<Longrightarrow> c \<notin> set s"
proof (induction p arbitrary: s)
  case Nil
  then show ?case by simp
next
  case (Cons x p)
  obtain t ts where t: "split_sep c p = t # ts"
    using split_sep_not_Nil [of c p] by (cases "split_sep c p") auto
  show ?case
  proof (cases "x = c")
    case True
    with Cons show ?thesis by auto
  next
    case False
    with Cons.prems t have "s = x # t \<or> s \<in> set ts" by auto
    then show ?thesis
    proof
      assume "s = x # t"
      moreover have "c \<notin> set t" using Cons.IH [of t] t by simp
      ultimately show ?thesis using False by auto
    next
      assume "s \<in> set ts"
      then show ?thesis using Cons.IH [of s] t by simp
    qed
  qed
qed

lemma join_sep_append:
  "xs \<noteq> [] \<Longrightarrow> ys \<noteq> [] \<Longrightarrow> join_sep sep (xs @ ys) = join_sep sep xs @ sep @ join_sep sep ys"
proof (induction sep xs rule: join_sep.induct)
  case (1 sep)
  then show ?case by simp
next
  case (2 sep s)
  then show ?case by (cases ys) auto
next
  case (3 sep s t ss)
  then show ?case by simp
qed

lemma split_join:
  "segs \<noteq> [] \<Longrightarrow> \<forall>s \<in> set segs. c \<notin> set s \<Longrightarrow> split_sep c (join_sep [c] segs) = segs"
proof (induction "[c]" segs rule: join_sep.induct)
  case 1
  then show ?case by simp
next
  case (2 s)
  then show ?case by (simp add: split_sep_no_sep)
next
  case (3 s t ss)
  then show ?case using split_sep_append [of c s "join_sep [c] (t # ss)"]
    by (simp add: split_sep_no_sep)
qed

lemma resolve_args_abs:
  "isAbsolute wd \<Longrightarrow> \<exists>P. \<forall>acc. resolve_args (ps @ [wd]) acc = (P @ ''/'' @ acc, True)"
proof (induction ps)
  case Nil
  then have "wd \<noteq> []" by (auto simp: isAbsolute_def)
  with Nil show ?case by auto
next
  case (Cons p ps)
  then obtain P where P: "\<forall>acc. resolve_args (ps @ [wd]) acc = (P @ ''/'' @ acc, True)" by blast
  show ?case
  proof (cases "p = []")
    case True
    with P show ?thesis by auto
  next
    case False
    show ?thesis
    proof (cases "isAbsolute p")
      case True
      with False show ?thesis by auto
    next
      case f: False
      have "\<forall>acc. resolve_args ((p # ps) @ [wd]) acc = ((P @ ''/'' @ p) @ ''/'' @ acc, True)"
        using False f P by simp
      then show ?thesis by blast
    qed
  qed
qed


lemma split_sep_trailing: "split_sep c (a @ [c]) = split_sep c a @ [[]]"
  using split_sep_append [of c a "[]"] by simp

lemma resolve_root:
  assumes "isAbsolute wd"
  shows "\<exists>N. (\<forall>s \<in> set N. clean_seg s)
           \<and> path_resolve wd [v] = ''/'' @ join_sep ''/'' (rev N)
           \<and> (\<forall>r. r \<noteq> [] \<and> \<not> isAbsolute r \<longrightarrow>
                 path_resolve wd [v, r]
                   = ''/'' @ join_sep ''/'' (rev (foldl (norm_step False) N (split_sep CHR ''/'' r))))"
proof -
  obtain P where P: "\<forall>acc. resolve_args ([v] @ [wd]) acc = (P @ ''/'' @ acc, True)"
    using resolve_args_abs [OF assms, of "[v]"] by blast
  define N where "N = foldl (norm_step False) [] (split_sep CHR ''/'' P)"
  have clean: "\<forall>s \<in> set N. clean_seg s"
    unfolding N_def by (rule norm_stack_clean) (auto dest: split_sep_free)
  have skip: "\<And>stk. norm_step False stk [] = stk"
    by (simp add: norm_step_skip)
  have one: "path_resolve wd [v] = ''/'' @ join_sep ''/'' (rev N)"
  proof -
    have "resolve_args (rev [v] @ [wd]) [] = (P @ ''/'', True)"
      using P by simp
    then show ?thesis
      by (simp add: path_resolve_def normalizeString_def norm_segs_def split_sep_trailing skip N_def)
  qed
  have two: "path_resolve wd [v, r]
               = ''/'' @ join_sep ''/'' (rev (foldl (norm_step False) N (split_sep CHR ''/'' r)))"
    if r: "r \<noteq> []" "\<not> isAbsolute r" for r
  proof -
    have "resolve_args (rev [v, r] @ [wd]) [] = resolve_args ([v] @ [wd]) (r @ ''/'')"
      using r by simp
    then have ra: "resolve_args (rev [v, r] @ [wd]) [] = (P @ CHR ''/'' # (r @ ''/''), True)"
      using P by simp
    have sp: "split_sep CHR ''/'' (P @ CHR ''/'' # (r @ ''/''))
                = split_sep CHR ''/'' P @ split_sep CHR ''/'' r @ [[]]"
      by (simp add: split_sep_append)
    show ?thesis
      unfolding path_resolve_def ra
      by (simp add: normalizeString_def norm_segs_def sp skip N_def)
  qed
  show ?thesis using clean one two by blast
qed


lemma path_normalize_resolved:
  assumes "\<forall>s \<in> set segs. clean_seg s"
  shows "path_normalize (''/'' @ join_sep ''/'' segs) = ''/'' @ join_sep ''/'' segs"
proof (cases "segs = []")
  case True
  have "split_sep CHR ''/'' ''/'' = [[], []]" by simp
  then show ?thesis
    using True
    by (simp add: path_normalize_def isAbsolute_def normalizeString_def norm_segs_def norm_step_skip)
next
  case False
  let ?j = "join_sep ''/'' segs"
  have free: "\<forall>s \<in> set segs. CHR ''/'' \<notin> set s"
    using assms by (simp add: clean_seg_def)
  have sp: "split_sep CHR ''/'' (CHR ''/'' # ?j) = [] # segs"
    using split_join [OF False free] by simp
  have n: "normalizeString (CHR ''/'' # ?j) False = ?j"
    unfolding normalizeString_def norm_segs_def sp
    using norm_clean [OF assms, of False "[]"] by (simp add: norm_step_skip)
  have lastseg: "last segs \<noteq> []" "CHR ''/'' \<notin> set (last segs)"
    using False assms by (auto simp: clean_seg_def)
  have jl: "?j \<noteq> [] \<and> last ?j = last (last segs)"
    using False lastseg(1)
  proof (induction "''/''" segs rule: join_sep.induct)
    case 1
    then show ?case by simp
  next
    case (2 s)
    then show ?case by simp
  next
    case (3 s t ss)
    then show ?case by simp
  qed
  have "last ?j \<noteq> CHR ''/''"
    using jl lastseg by (metis last_in_set)
  then show ?thesis
    using jl n by (simp add: path_normalize_def isAbsolute_def)
qed


lemma join_sep_nonempty: "segs \<noteq> [] \<Longrightarrow> hd segs \<noteq> [] \<Longrightarrow> join_sep sep segs \<noteq> []"
  by (induction sep segs rule: join_sep.induct) auto

lemma startsWith_lower_append: "startsWith (toLowerCase (a @ b)) (toLowerCase a)"
  by (simp add: startsWith_def toLowerCase_def)

lemma validatePath_relative_plain:
  assumes "\<not> list_ex (\<lambda>part. startsWith part ''.'') (split_sep path_sep r)"
    and "\<not> startsWith r ''~/''" and "r \<noteq> ''~''" and "\<not> isAbsolute r"
    and "allowedDirectories st = [d]"
    and "startsWith (normalizePath (path_resolve (cwd e) [vaultPath st, r])) d"
  shows "validatePath e st r = Inr (path_resolve (cwd e) [vaultPath st, r])"
  using assms by (simp add: validatePath_def expandHome_def Let_def)

section \<open>The path guard\<close>

text \<open>
  C7. The guard rejects \<open>../../etc/passwd\<close> and \<open>.hidden.md\<close> with access denied, and
  accepts \<open>notes/sub/a.md\<close>, returning the absolute path of that name under the vault
  root. The client is any state whose allowed directory is the one the constructor
  computes from the vault path; the process's working directory is absolute.
\<close>

theorem validatePath_examples:
  assumes "isAbsolute (cwd e)"
    and "allowedDirectories st = [normalizePath (path_resolve (cwd e) [vaultPath st])]"
  shows "validatePath e st ''../../etc/passwd'' = Inl AccessDeniedHidden
     \<and> validatePath e st ''.hidden.md'' = Inl AccessDeniedHidden
     \<and> isAbsolute (path_resolve (cwd e) [vaultPath st])
     \<and> validatePath e st ''notes/sub/a.md''
         = Inr ((if path_resolve (cwd e) [vaultPath st] = ''/'' then []
                 else path_resolve (cwd e) [vaultPath st]) @ ''/notes/sub/a.md'')"
proof -
  let ?root = "path_resolve (cwd e) [vaultPath st]"
  let ?r = "''notes/sub/a.md''"
  let ?L = "[''notes'', ''sub'', ''a.md'']"
  have h1: "validatePath e st ''../../etc/passwd'' = Inl AccessDeniedHidden"
    by (simp add: validatePath_def path_sep_def startsWith_def)
  have h2: "validatePath e st ''.hidden.md'' = Inl AccessDeniedHidden"
    by (simp add: validatePath_def path_sep_def startsWith_def)
  obtain N where N: "\<forall>s \<in> set N. clean_seg s"
    and root: "?root = ''/'' @ join_sep ''/'' (rev N)"
    and rel: "\<forall>r. r \<noteq> [] \<and> \<not> isAbsolute r \<longrightarrow>
                path_resolve (cwd e) [vaultPath st, r]
                  = ''/'' @ join_sep ''/'' (rev (foldl (norm_step False) N (split_sep CHR ''/'' r)))"
    using resolve_root [OF assms(1), of "vaultPath st"] by blast
  have cl: "\<forall>s \<in> set ?L. clean_seg s"
    by (simp add: clean_seg_def)
  have sp: "split_sep CHR ''/'' ?r = ?L"
    by simp
  have nr: "?r \<noteq> [] \<and> \<not> isAbsolute ?r"
    by (simp add: isAbsolute_def)
  have abs: "path_resolve (cwd e) [vaultPath st, ?r] = ''/'' @ join_sep ''/'' (rev N @ ?L)"
  proof -
    have "path_resolve (cwd e) [vaultPath st, ?r]
            = ''/'' @ join_sep ''/'' (rev (foldl (norm_step False) N (split_sep CHR ''/'' ?r)))"
      using rel nr by blast
    also have "foldl (norm_step False) N (split_sep CHR ''/'' ?r) = rev ?L @ N"
      unfolding sp by (rule norm_clean [OF cl])
    finally show ?thesis by (simp only: rev_append rev_rev_ident)
  qed
  have cl2: "\<forall>s \<in> set (rev N @ ?L). clean_seg s"
    using N cl by auto
  have cl1: "\<forall>s \<in> set (rev N). clean_seg s"
    using N by auto
  have h3: "isAbsolute ?root"
    by (simp add: root isAbsolute_def)
  have shape: "path_resolve (cwd e) [vaultPath st, ?r]
                 = (if ?root = ''/'' then [] else ?root) @ ''/notes/sub/a.md''"
  proof (cases "N = []")
    case True
    then show ?thesis by (simp add: abs root)
  next
    case False
    then have "hd (rev N) \<noteq> []"
      using N by (metis clean_seg_def hd_in_set rev_is_Nil_conv set_rev)
    then have ne: "join_sep ''/'' (rev N) \<noteq> []"
      using False by (intro join_sep_nonempty) auto
    have "join_sep ''/'' (rev N @ ?L) = join_sep ''/'' (rev N) @ ''/'' @ join_sep ''/'' ?L"
      using False by (intro join_sep_append) auto
    then show ?thesis using ne by (simp add: abs root)
  qed
  have st: "startsWith (normalizePath (path_resolve (cwd e) [vaultPath st, ?r])) (normalizePath ?root)"
  proof -
    have a: "path_normalize (path_resolve (cwd e) [vaultPath st, ?r])
               = path_resolve (cwd e) [vaultPath st, ?r]"
      unfolding abs by (rule path_normalize_resolved [OF cl2])
    have b: "path_normalize ?root = ?root"
      unfolding root by (rule path_normalize_resolved [OF cl1])
    have na: "normalizePath (path_resolve (cwd e) [vaultPath st, ?r])
                = toLowerCase (path_resolve (cwd e) [vaultPath st, ?r])"
      by (simp only: normalizePath_def a)
    have nb: "normalizePath ?root = toLowerCase ?root"
      by (simp only: normalizePath_def b)
    show ?thesis
    proof (cases "?root = ''/''")
      case True
      have "startsWith (toLowerCase ''/notes/sub/a.md'') (toLowerCase ''/'')"
        by (simp add: startsWith_def toLowerCase_def lower_char_def)
      then show ?thesis
        unfolding na nb using True shape by simp
    next
      case False
      then have "path_resolve (cwd e) [vaultPath st, ?r] = ?root @ ''/notes/sub/a.md''"
        using shape by simp
      then show ?thesis
        unfolding na nb by (simp only: startsWith_lower_append)
    qed
  qed
  have hid: "\<not> list_ex (\<lambda>part. startsWith part ''.'') (split_sep path_sep ?r)"
    by (simp add: path_sep_def startsWith_def)
  have h4: "validatePath e st ?r = Inr (path_resolve (cwd e) [vaultPath st, ?r])"
    using hid assms(2) st nr
    by (intro validatePath_relative_plain) (simp_all add: startsWith_def)
  show ?thesis
    using h1 h2 h3 h4 shape by simp
qed

theorem validatePath_examples_witness:
  "isAbsolute (cwd demo_env)
   \<and> allowedDirectories demo_vault
       = [normalizePath (path_resolve (cwd demo_env) [vaultPath demo_vault])]
   \<and> validatePath demo_env demo_vault ''../../etc/passwd'' = Inl AccessDeniedHidden
   \<and> validatePath demo_env demo_vault ''notes/sub/a.md'' = Inr ''/vault/notes/sub/a.md''"
proof -
  have h1: "isAbsolute (cwd demo_env)"
    by code_simp
  have h2: "allowedDirectories demo_vault
              = [normalizePath (path_resolve (cwd demo_env) [vaultPath demo_vault])]"
    by code_simp
  have r: "path_resolve (cwd demo_env) [vaultPath demo_vault] = ''/vault''"
    by code_simp
  show ?thesis
    using validatePath_examples [OF h1 h2] h1 h2 unfolding r by simp
qed



text \<open>
  C1. For a vault rooted at \<open>/vault\<close>, a requested absolute path under the sibling
  directory \<open>/vault-evil\<close> should be rejected as outside the vault. The guard compares
  with \<open>startsWith\<close> against \<open>/vault\<close>, with no separator behind it, and accepts the path;
  \<open>createNote\<close> then writes the file there.
\<close>

theorem validatePath_sibling_directory:
  "allowedDirectories demo_vault = [''/vault'']
   \<and> validatePath demo_env demo_vault ''/vault-evil/secret.md'' = Inr ''/vault-evil/secret.md''
   \<and> lookup_node
         (fsroot (fst (createNote demo_env demo_vault ''/vault-evil/secret.md'' ''text'' None)))
         [''vault-evil'', ''secret.md'']
       = Some (File ''text'' 0 0)"
  by code_simp

text \<open>
  C9. Every requested path with a \<open>..\<close> segment is rejected by the hidden-segment check,
  the first thing the guard does, also when the path would resolve into the vault:
  \<open>a/../b.md\<close> resolves to \<open>/vault/b.md\<close> and is rejected.
\<close>

theorem validatePath_dotdot_rejected:
  assumes "''..'' \<in> set (split_sep path_sep p)"
  shows "validatePath e st p = Inl AccessDeniedHidden"
proof -
  have "startsWith ''..'' ''.''"
    by (simp add: startsWith_def)
  with assms have "list_ex (\<lambda>part. startsWith part ''.'') (split_sep path_sep p)"
    unfolding list_ex_iff by blast
  then show ?thesis
    by (simp add: validatePath_def)
qed

theorem validatePath_dotdot_rejected_witness:
  "''..'' \<in> set (split_sep path_sep ''a/../b.md'')
   \<and> validatePath demo_env demo_vault ''a/../b.md'' = Inl AccessDeniedHidden
   \<and> path_resolve (cwd demo_env) [vaultPath demo_vault, ''a/../b.md''] = ''/vault/b.md''"
proof -
  have h: "''..'' \<in> set (split_sep path_sep ''a/../b.md'')"
    by code_simp
  have r: "path_resolve (cwd demo_env) [vaultPath demo_vault, ''a/../b.md''] = ''/vault/b.md''"
    by code_simp
  show ?thesis
    using validatePath_dotdot_rejected [OF h] h r by simp
qed

section \<open>The link graphs\<close>

lemma set_set_add: "set (set_add x s) = insert x (set s)"
  by (auto simp: set_add_def)

lemma dom_map_entry: "dom (map_of (AList.map_entry k f g)) = dom (map_of g)"
  by (auto simp: map_of_map_entry split: option.splits if_splits)

lemma edge_map_entry:
  "edge (AList.map_entry k (set_add v) g) a b
     = (edge g a b \<or> (a = k \<and> b = v \<and> k \<in> dom (map_of g)))"
  by (auto simp: edge_def map_of_map_entry set_set_add split: option.splits)

lemma map_of_init_graph_gen:
  "map_of (foldl (\<lambda>g n. AList.update (path n) [] g) g0 ns) k
     = (if k \<in> path ` set ns then Some [] else map_of g0 k)"
  by (induction ns arbitrary: g0) (auto simp: update_conv')

lemma map_of_init_graph:
  "map_of (init_graph notes) k = (if k \<in> path ` set notes then Some [] else None)"
  by (simp add: init_graph_def map_of_init_graph_gen)

lemma graphs_ok_init: "graphs_ok (path ` set notes) (init_graph notes, init_graph notes)"
  by (auto simp: graphs_ok_def edge_def map_of_init_graph dom_def split: if_splits)

lemma resolveLink_in_mem: "resolveLink_in notes l = Some t \<Longrightarrow> t \<in> set notes"
  by (auto simp: resolveLink_in_def Let_def find_Some_iff split: option.splits)

lemma graphs_ok_add_link:
  assumes "graphs_ok K g" and "path n \<in> K" and "path ` set notes \<subseteq> K"
  shows "graphs_ok K (add_link notes n g l)"
proof (cases "resolveLink_in notes l")
  case None
  then show ?thesis using assms(1) by (simp add: add_link_def)
next
  case (Some t)
  then have tK: "path t \<in> K"
    using assms(3) resolveLink_in_mem by blast
  show ?thesis
    using assms(1,2) tK Some
    by (auto simp: graphs_ok_def add_link_def dom_map_entry edge_map_entry)
qed

lemma graphs_ok_add_links:
  assumes "graphs_ok K g" and "path n \<in> K" and "path ` set notes \<subseteq> K"
  shows "graphs_ok K (foldl (add_link notes n) g ls)"
  using assms(1)
proof (induction ls arbitrary: g)
  case Nil
  then show ?case by simp
next
  case (Cons l ls)
  then show ?case using graphs_ok_add_link [OF _ assms(2,3)] by simp
qed

lemma graphs_ok_add_notes:
  assumes "graphs_ok K g" and "path ` set ns \<subseteq> K" and "path ` set notes \<subseteq> K"
  shows "graphs_ok K (foldl (add_note_links notes) g ns)"
  using assms(1,2)
proof (induction ns arbitrary: g)
  case Nil
  then show ?case by simp
next
  case (Cons n ns)
  have "graphs_ok K (add_note_links notes g n)"
    unfolding add_note_links_def using Cons.prems assms(3)
    by (intro graphs_ok_add_links) auto
  then show ?case using Cons by simp
qed

lemma wf_cache_iff: "wf_cache st = (\<forall>(k, n) \<in> set (noteCache st). path n = k)"
  by (simp add: wf_cache_def list_all_iff)

lemma graph_symmetric_iff:
  "graph_symmetric st =
     (\<forall>A \<in> set (cache_keys st). \<forall>B \<in> set (cache_keys st).
        (B \<in> set (getForwardLinks st A)) = (A \<in> set (getBacklinks st B)))"
  by (simp add: graph_symmetric_def list_all_iff)

lemma getForwardLinks_edge: "(B \<in> set (getForwardLinks st A)) = edge (linkGraph st) A B"
  by (simp add: getForwardLinks_def edge_def split: option.splits)

lemma set_alist_update: "set (AList.update k v al) \<subseteq> insert (k, v) (set al)"
  by (induction al) auto

lemma wf_cache_paths: "wf_cache st \<Longrightarrow> path ` set (map snd (noteCache st)) = set (cache_keys st)"
  by (force simp: wf_cache_iff cache_keys_def)

lemma build_graphs_ok:
  assumes "wf_cache st"
  shows "graphs_ok (set (cache_keys st))
           (linkGraph (buildLinkGraphs st), backlinksGraph (buildLinkGraphs st))"
proof -
  let ?ns = "map snd (noteCache st)"
  have K: "path ` set ?ns = set (cache_keys st)"
    by (rule wf_cache_paths [OF assms])
  have "graphs_ok (path ` set ?ns)
          (foldl (add_note_links ?ns) (init_graph ?ns, init_graph ?ns) ?ns)"
    by (intro graphs_ok_add_notes graphs_ok_init) auto
  then show ?thesis
    unfolding K by (simp add: buildLinkGraphs_def Let_def)
qed

lemma map_of_map_values:
  "map_of (map (\<lambda>(k, v). (k, f k v)) al) x = map_option (f x) (map_of al x)"
  by (induction al) auto

lemma build_getBacklinks:
  assumes "wf_cache st"
  shows "(A \<in> set (getBacklinks (buildLinkGraphs st) B))
           = edge (backlinksGraph (buildLinkGraphs st)) B A"
proof -
  let ?st = "buildLinkGraphs st"
  let ?bg = "backlinksGraph ?st"
  have ok: "graphs_ok (set (cache_keys st)) (linkGraph ?st, ?bg)"
    by (rule build_graphs_ok [OF assms])
  have cache: "noteCache ?st
      = map (\<lambda>(k, n). (k, case map_of ?bg (path n) of None \<Rightarrow> n | Some bs \<Rightarrow> n\<lparr>backlinks := bs\<rparr>))
          (noteCache st)"
    by (simp add: buildLinkGraphs_def Let_def)
  show ?thesis
  proof (cases "map_of (noteCache st) B")
    case None
    then have "B \<notin> set (cache_keys st)"
      by (simp add: cache_keys_def map_of_eq_None_iff)
    then have "B \<notin> dom (map_of ?bg)"
      using ok by (simp add: graphs_ok_def)
    then have "map_of ?bg B = None"
      by blast
    moreover have "map_of (noteCache ?st) B = None"
      unfolding cache using None by (simp add: map_of_map_values)
    ultimately show ?thesis
      by (simp add: getBacklinks_def edge_def)
  next
    case (Some n)
    then have mem: "(B, n) \<in> set (noteCache st)"
      by (rule map_of_SomeD)
    then have pn: "path n = B"
      using assms by (auto simp: wf_cache_iff)
    have "B \<in> set (cache_keys st)"
      using mem by (force simp: cache_keys_def)
    then have "B \<in> dom (map_of ?bg)"
      using ok by (simp add: graphs_ok_def)
    then obtain bs where bs: "map_of ?bg B = Some bs"
      by blast
    have "map_of (noteCache ?st) B = Some (n\<lparr>backlinks := bs\<rparr>)"
      unfolding cache using Some pn bs by (simp add: map_of_map_values)
    then show ?thesis
      using bs by (simp add: getBacklinks_def edge_def)
  qed
qed

lemma build_symmetric_all:
  assumes "wf_cache st"
  shows "(B \<in> set (getForwardLinks (buildLinkGraphs st) A))
           = (A \<in> set (getBacklinks (buildLinkGraphs st) B))"
  using build_graphs_ok [OF assms] build_getBacklinks [OF assms]
  by (simp add: getForwardLinks_edge graphs_ok_def)

lemma build_cache_keys: "cache_keys (buildLinkGraphs st) = cache_keys st"
  by (simp add: buildLinkGraphs_def Let_def cache_keys_def case_prod_unfold comp_def)

lemma build_wf: "wf_cache st \<Longrightarrow> wf_cache (buildLinkGraphs st)"
  by (auto simp: wf_cache_iff buildLinkGraphs_def Let_def split: option.splits)

lemma build_links_closed:
  assumes "wf_cache st"
  shows "links_closed (buildLinkGraphs st)"
  unfolding links_closed_def
proof (intro allI impI)
  fix A B
  let ?st = "buildLinkGraphs st"
  assume "B \<in> set (getForwardLinks ?st A)"
  then have "edge (backlinksGraph ?st) B A"
    using build_graphs_ok [OF assms] by (simp add: getForwardLinks_edge graphs_ok_def)
  then have "B \<in> dom (map_of (backlinksGraph ?st))"
    by (auto simp: edge_def split: option.splits)
  then show "B \<in> set (cache_keys ?st)"
    using build_graphs_ok [OF assms] by (simp add: graphs_ok_def build_cache_keys)
qed

lemma build_inv: "wf_cache st \<Longrightarrow> vault_inv (buildLinkGraphs st)"
  using build_symmetric_all build_wf build_links_closed
  by (simp add: vault_inv_def graph_symmetric_iff)

lemma same_index_inv: "same_index st st' \<Longrightarrow> vault_inv st' = vault_inv st"
  by (simp add: same_index_def vault_inv_def wf_cache_def graph_symmetric_def links_closed_def
      cache_keys_def getForwardLinks_def getBacklinks_def)

lemma same_index_wf: "same_index st st' \<Longrightarrow> wf_cache st' = wf_cache st"
  by (simp add: same_index_def wf_cache_def)

lemma same_index_refl: "same_index st st"
  by (simp add: same_index_def)

lemma same_index_trans: "same_index a b \<Longrightarrow> same_index b c \<Longrightarrow> same_index a c"
  by (simp add: same_index_def)

lemma same_index_logger: "same_index st (logger lvl msg st)"
  by (simp add: same_index_def logger_def)

lemma same_index_rebuildSearchIndex: "same_index st (rebuildSearchIndex st)"
  by (simp add: same_index_def rebuildSearchIndex_def)

lemma same_index_writeFile: "fs_writeFile e st p c = Inr st' \<Longrightarrow> same_index st st'"
  by (auto simp: fs_writeFile_def same_index_def split: option.splits)

lemma same_index_ensureDir: "fs_ensureDir e st p = Inr st' \<Longrightarrow> same_index st st'"
  by (auto simp: fs_ensureDir_def same_index_def split: option.splits)

lemma same_index_remove: "fs_remove e st p = Inr st' \<Longrightarrow> same_index st st'"
  by (auto simp: fs_remove_def same_index_def split: if_splits)

lemma updateCacheEntry_wf: "wf_cache st \<Longrightarrow> wf_cache (updateCacheEntry e st rp)"
proof -
  assume wf: "wf_cache st"
  have upd: "wf_cache (st\<lparr>noteCache := AList.update rp n (noteCache st)\<rparr>)"
    if "path n = rp" for n
    using wf that set_alist_update [of rp n "noteCache st"]
    by (auto simp: wf_cache_iff)
  have lg: "wf_cache (logger lvl msg st)" for lvl msg
    using wf by (simp add: wf_cache_def logger_def)
  show ?thesis
    unfolding updateCacheEntry_def Let_def
    by (auto split: sum.splits prod.splits intro!: upd lg)
qed

lemma removeFromCache_wf: "wf_cache st \<Longrightarrow> wf_cache (removeFromCache st rp)"
  by (auto simp: wf_cache_iff removeFromCache_def AList.delete_eq)

lemma removeFromCache_keys:
  "set (cache_keys (removeFromCache st rp)) = set (cache_keys st) - {rp}"
  by (force simp: cache_keys_def removeFromCache_def AList.delete_eq)

lemma removeFromCache_forward:
  "A \<noteq> rp \<Longrightarrow>
     (B \<in> set (getForwardLinks (removeFromCache st rp) A))
       = (B \<noteq> rp \<and> B \<in> set (getForwardLinks st A))"
  by (auto simp: getForwardLinks_def removeFromCache_def map_of_map_values [of "\<lambda>k. removeAll rp"]
      delete_conv' split: option.splits)

lemma removeFromCache_backlinks:
  "B \<noteq> rp \<Longrightarrow> getBacklinks (removeFromCache st rp) B = getBacklinks st B"
  by (simp add: getBacklinks_def removeFromCache_def delete_conv')

lemma removeFromCache_forward_self: "getForwardLinks (removeFromCache st rp) rp = []"
  by (simp add: getForwardLinks_def removeFromCache_def map_of_map_values [of "\<lambda>k. removeAll rp"]
      delete_conv')

lemma removeFromCache_links_closed:
  assumes "links_closed st"
  shows "links_closed (removeFromCache st rp)"
  unfolding links_closed_def
proof (intro allI impI)
  fix A B
  assume m: "B \<in> set (getForwardLinks (removeFromCache st rp) A)"
  then have "A \<noteq> rp"
    using removeFromCache_forward_self [of st rp] by auto
  then have "B \<noteq> rp \<and> B \<in> set (getForwardLinks st A)"
    using m by (simp add: removeFromCache_forward)
  then have "B \<noteq> rp \<and> B \<in> set (cache_keys st)"
    using assms unfolding links_closed_def by blast
  then show "B \<in> set (cache_keys (removeFromCache st rp))"
    by (simp add: removeFromCache_keys)
qed

lemma removeFromCache_inv: "vault_inv st \<Longrightarrow> vault_inv (removeFromCache st rp)"
  unfolding vault_inv_def graph_symmetric_iff
  by (auto simp: removeFromCache_wf removeFromCache_keys removeFromCache_forward
      removeFromCache_backlinks removeFromCache_links_closed)

lemma refresh_inv:
  "wf_cache st \<Longrightarrow> vault_inv (rebuildSearchIndex (buildLinkGraphs (updateCacheEntry e st rp)))"
  using same_index_inv [OF same_index_rebuildSearchIndex] build_inv updateCacheEntry_wf
  by simp

lemma createNote_inv:
  assumes "vault_inv st"
  shows "vault_inv (fst (createNote e st p c f))"
proof (cases "validatePath e st p")
  case (Inl err)
  then show ?thesis using assms by (simp add: createNote_def)
next
  case (Inr validPath)
  note vp = this
  let ?fc = "case f of None \<Rightarrow> Inr c
             | Some fm \<Rightarrow> if fm \<noteq> [] then matter_stringify e c fm else Inr c"
  show ?thesis
  proof (cases ?fc)
    case (Inl err)
    then show ?thesis using assms vp by (simp add: createNote_def Let_def)
  next
    case (Inr fileContent)
    note fc = this
    show ?thesis
    proof (cases "fs_ensureDir e st (path_dirname validPath)")
      case (Inl err)
      then show ?thesis using assms vp fc by (simp add: createNote_def Let_def)
    next
      case (Inr st1)
      note s1 = this
      have i1: "vault_inv st1"
        using same_index_inv [OF same_index_ensureDir [OF s1]] assms by simp
      show ?thesis
      proof (cases "fs_writeFile e st1 validPath fileContent")
        case (Inl err)
        then show ?thesis using i1 vp fc s1 by (simp add: createNote_def Let_def)
      next
        case (Inr st2)
        have "vault_inv st2"
          using same_index_inv [OF same_index_writeFile [OF Inr]] i1 by simp
        then have wf2: "wf_cache st2"
          by (simp add: vault_inv_def)
        let ?rp = "path_relative (cwd e) (vaultPath st2) validPath"
        let ?st3 = "rebuildSearchIndex (buildLinkGraphs (updateCacheEntry e st2 ?rp))"
        have i3: "vault_inv ?st3"
          by (rule refresh_inv [OF wf2])
        have i4: "vault_inv (logger lvl msg ?st3)" for lvl msg
          using same_index_inv [OF same_index_logger] i3 by simp
        show ?thesis
          using vp fc s1 Inr i3 i4
          by (simp add: createNote_def Let_def split: option.splits)
      qed
    qed
  qed
qed

lemma updateNote_inv:
  assumes "vault_inv st"
  shows "vault_inv (fst (updateNote e st p c f))"
proof (cases "validatePath e st p")
  case (Inl err)
  then show ?thesis using assms by (simp add: updateNote_def)
next
  case (Inr validPath)
  note vp = this
  let ?rp = "path_relative (cwd e) (vaultPath st) validPath"
  show ?thesis
  proof (cases "map_of (noteCache st) ?rp")
    case None
    then show ?thesis using assms vp by (simp add: updateNote_def Let_def)
  next
    case (Some existingNote)
    note ex = this
    let ?fc = "matter_stringify e (case c of None \<Rightarrow> content existingNote | Some x \<Rightarrow> x)
                 (case f of None \<Rightarrow> frontmatter existingNote | Some x \<Rightarrow> x)"
    show ?thesis
    proof (cases ?fc)
      case (Inl err)
      then show ?thesis using assms vp ex by (simp add: updateNote_def Let_def)
    next
      case (Inr fileContent)
      note fc = this
      show ?thesis
      proof (cases "fs_writeFile e st validPath fileContent")
        case (Inl err)
        then show ?thesis using assms vp ex fc by (simp add: updateNote_def Let_def)
      next
        case (Inr st1)
        have "vault_inv st1"
          using same_index_inv [OF same_index_writeFile [OF Inr]] assms by simp
        then have wf1: "wf_cache st1"
          by (simp add: vault_inv_def)
        let ?st2 = "rebuildSearchIndex (buildLinkGraphs (updateCacheEntry e st1 ?rp))"
        have "vault_inv (logger lvl msg ?st2)" for lvl msg
          using same_index_inv [OF same_index_logger] refresh_inv [OF wf1] by simp
        then show ?thesis
          using vp ex fc Inr by (simp add: updateNote_def Let_def)
      qed
    qed
  qed
qed

lemma deleteNote_inv:
  assumes "vault_inv st"
  shows "vault_inv (fst (deleteNote e st p))"
proof (cases "validatePath e st p")
  case (Inl err)
  then show ?thesis using assms by (simp add: deleteNote_def)
next
  case (Inr validPath)
  note vp = this
  let ?rp = "path_relative (cwd e) (vaultPath st) validPath"
  show ?thesis
  proof (cases "fs_remove e st validPath")
    case (Inl err)
    then show ?thesis using assms vp by (simp add: deleteNote_def Let_def)
  next
    case (Inr st1)
    have "vault_inv st1"
      using same_index_inv [OF same_index_remove [OF Inr]] assms by simp
    then have "vault_inv (removeFromCache st1 ?rp)"
      by (rule removeFromCache_inv)
    then have "vault_inv (logger lvl msg (rebuildSearchIndex (removeFromCache st1 ?rp)))" for lvl msg
      using same_index_inv [OF same_index_trans [OF same_index_rebuildSearchIndex same_index_logger]]
      by simp
    then show ?thesis
      using assms vp Inr by (simp add: deleteNote_def Let_def)
  qed
qed

lemma scan_wf:
  "wf_cache st \<Longrightarrow>
     wf_cache (foldl (\<lambda>s filePath. updateCacheEntry e s (g s filePath)) st files)"
  by (induction files arbitrary: st) (auto intro: updateCacheEntry_wf)

lemma scanVault_wf: "wf_cache st \<Longrightarrow> scanVault e st = Inr st1 \<Longrightarrow> wf_cache st1"
  using scan_wf [of st e "\<lambda>s filePath. path_relative (cwd e) (vaultPath s) filePath"]
  by (auto simp: scanVault_def split: sum.splits)

lemma initializeVault_inv:
  assumes "vault_inv st"
  shows "vault_inv (fst (initializeVault e st))"
proof -
  let ?st = "logger LInfo (''Initializing vault at: '' @ vaultPath st) st"
  have i0: "vault_inv ?st"
    using same_index_inv [OF same_index_logger] assms by simp
  then have wf0: "wf_cache ?st"
    by (simp add: vault_inv_def)
  have fin: "vault_inv (logger lvl msg (rebuildSearchIndex (buildLinkGraphs st1)))"
    if "scanVault e ?st = Inr st1" for st1 lvl msg
    using same_index_inv [OF same_index_trans [OF same_index_rebuildSearchIndex same_index_logger]]
      build_inv [OF scanVault_wf [OF wf0 that]]
    by simp
  show ?thesis
    unfolding initializeVault_def Let_def
    using i0 fin by (auto split: sum.splits)
qed

lemma new_client_inv: "vault_inv (new_client e fs0 vp)"
  by (simp add: vault_inv_def wf_cache_def graph_symmetric_def links_closed_def new_client_def
      cache_keys_def getForwardLinks_def)

text \<open>
  Each of \<open>createNote\<close>, \<open>updateNote\<close>, \<open>deleteNote\<close> and \<open>initializeVault\<close> by itself keeps
  the invariant, as the lemmas above say. The watcher's event for the file the operation
  wrote does not: it puts a new entry with no backlinks into the cache and rebuilds no
  graph.
\<close>

text \<open>
  C2. For all notes \<open>A\<close> and \<open>B\<close> in the vault, \<open>B\<close> should be among the forward links of \<open>A\<close>
  if and only if \<open>A\<close> is among the backlinks of \<open>B\<close>, after every sequence of operations. In
  the running client two calls of \<open>createNote\<close> on a new vault, for \<open>a.md\<close> linking to \<open>b\<close>
  and \<open>b.md\<close> linking to \<open>a\<close>, leave both notes in the cache with \<open>b.md\<close> among the forward
  links of \<open>a.md\<close> and no backlinks of \<open>b.md\<close>: the second call returns with the backlink
  in place, and the watcher's event for the file it wrote replaces the entry of \<open>b.md\<close> by
  one with no backlinks.
\<close>

theorem graph_symmetry_broken_by_watcher:
  "cache_keys vault_ab = [''a.md'', ''b.md'']
   \<and> getForwardLinks vault_ab ''a.md'' = [''b.md'']
   \<and> getBacklinks vault_ab ''b.md'' = []
   \<and> getBacklinks (fst (createNote demo_env vault_a ''b.md'' ''see [[a]]'' None)) ''b.md''
       = [''a.md'']
   \<and> fs_change (fsroot vault_a)
         (fsroot (fst (createNote demo_env vault_a ''b.md'' ''see [[a]]'' None)))
         [''vault'', ''b.md'']
       = Some Add
   \<and> watched demo_env vault_a ''/vault/b.md''"
  by code_simp

section \<open>Deleting a note\<close>

lemma removeFromCache_purged:
  "map_of (noteCache (removeFromCache st A)) A = None"
  "map_of (linkGraph (removeFromCache st A)) A = None"
  "map_of (backlinksGraph (removeFromCache st A)) A = None"
  "A \<notin> set (getForwardLinks (removeFromCache st A) B)"
  "\<not> edge (backlinksGraph (removeFromCache st A)) B A"
  by (auto simp: removeFromCache_def getForwardLinks_def edge_def delete_conv'
      map_of_map_values [of "\<lambda>k. removeAll A"] split: option.splits)

lemma brokenLinks_mem:
  assumes "(B, n) \<in> set (noteCache st)" and "r \<in> set (links n)" and "resolveLink st r = None"
  shows "path n @ '': '' @ r \<in> set (brokenLinks (analyzeLinkNetwork st))"
proof -
  have "n \<in> set (map snd (noteCache st))"
    using assms(1) by force
  then show ?thesis
    using assms(2,3) by (force simp: analyzeLinkNetwork_def Let_def)
qed

lemma deleteNote_success:
  assumes "deleteNote e st notePath = (st', Inr ())"
    and "validatePath e st notePath = Inr validPath"
  shows "\<exists>st1. same_index st st1
           \<and> st' = logger LInfo (''Deleted note: '' @ path_relative (cwd e) (vaultPath st) validPath)
                     (rebuildSearchIndex
                        (removeFromCache st1 (path_relative (cwd e) (vaultPath st) validPath)))"
  using assms
  by (auto simp: deleteNote_def Let_def split: if_splits sum.splits dest: same_index_remove)

text \<open>
  What \<open>deleteNote\<close> does purge: after it succeeds on the note \<open>A\<close>, \<open>A\<close> is gone from the
  cache and from both graph maps, as a key and from every set in them, so no note's
  forward links contain \<open>A\<close>; and \<open>brokenLinks\<close> has the entry of every raw reference of a
  remaining note that no remaining note resolves.
\<close>

lemma deleteNote_purges_graphs:
  assumes "deleteNote e st notePath = (st', Inr ())"
    and "validatePath e st notePath = Inr validPath"
    and "A = path_relative (cwd e) (vaultPath st) validPath"
  shows "map_of (noteCache st') A = None
     \<and> map_of (linkGraph st') A = None
     \<and> map_of (backlinksGraph st') A = None
     \<and> (\<forall>B. A \<notin> set (getForwardLinks st' B))
     \<and> (\<forall>B bs. map_of (backlinksGraph st') B = Some bs \<longrightarrow> A \<notin> set bs)
     \<and> (\<forall>B n r. (B, n) \<in> set (noteCache st') \<and> r \<in> set (links n) \<and> resolveLink st' r = None
            \<longrightarrow> path n @ '': '' @ r \<in> set (brokenLinks (analyzeLinkNetwork st')))"
proof -
  obtain st1 where st': "st' = logger LInfo (''Deleted note: '' @ A)
                                 (rebuildSearchIndex (removeFromCache st1 A))"
    using deleteNote_success [OF assms(1,2)] assms(3) by blast
  let ?r = "removeFromCache st1 A"
  have c: "noteCache st' = noteCache ?r" and l: "linkGraph st' = linkGraph ?r"
    and b: "backlinksGraph st' = backlinksGraph ?r"
    by (simp_all add: st' logger_def rebuildSearchIndex_def)
  have f: "getForwardLinks st' B = getForwardLinks ?r B" for B
    by (simp add: getForwardLinks_def l)
  have e: "\<not> edge (backlinksGraph st') B A" for B
    unfolding b by (rule removeFromCache_purged)
  have p5: "\<forall>B bs. map_of (backlinksGraph st') B = Some bs \<longrightarrow> A \<notin> set bs"
  proof (intro allI impI)
    fix B bs
    assume "map_of (backlinksGraph st') B = Some bs"
    then show "A \<notin> set bs"
      using e [of B] by (simp add: edge_def)
  qed
  have p6: "\<forall>B n r. (B, n) \<in> set (noteCache st') \<and> r \<in> set (links n) \<and> resolveLink st' r = None
            \<longrightarrow> path n @ '': '' @ r \<in> set (brokenLinks (analyzeLinkNetwork st'))"
    using brokenLinks_mem by blast
  show ?thesis
    using p5 p6 by (simp add: c l b f removeFromCache_purged)
qed

lemma removeFromCache_getBacklinks:
  "getBacklinks (removeFromCache st rp) B = (if B = rp then [] else getBacklinks st B)"
  by (simp add: getBacklinks_def removeFromCache_def delete_conv')

text \<open>
  C4. After \<open>deleteNote\<close> of the note \<open>A\<close>, which the note \<open>B\<close> referred to, \<open>A\<close> should be gone
  from the cache and from every note's forward links and backlinks, and \<open>brokenLinks\<close>
  should have the entry of \<open>B\<close>'s reference. \<open>removeFromCache\<close> takes \<open>A\<close> out of the sets of
  the backward graph, but \<open>getBacklinks\<close> reads the \<open>backlinks\<close> array of the cached note,
  which \<open>removeFromCache\<close> leaves as it is. In the vault of \<open>a.md\<close> and \<open>b.md\<close>, each linking
  to the other, after \<open>deleteNote\<close> of \<open>a.md\<close> the cache, the forward links, the backward
  graph and \<open>brokenLinks\<close> are as they should be, and \<open>getBacklinks\<close> of \<open>b.md\<close> still has
  \<open>a.md\<close>, at the return of \<open>deleteNote\<close> and after the watcher's event.
\<close>

theorem deleteNote_stale_backlinks:
  "getBacklinks (removeFromCache st rp) B = (if B = rp then [] else getBacklinks st B)
   \<and> getForwardLinks vault_scanned ''b.md'' = [''a.md'']
   \<and> getBacklinks vault_scanned ''b.md'' = [''a.md'']
   \<and> snd (deleteNote demo_env vault_scanned ''a.md'') = Inr ()
   \<and> cache_keys (fst (deleteNote demo_env vault_scanned ''a.md'')) = [''b.md'']
   \<and> getForwardLinks (fst (deleteNote demo_env vault_scanned ''a.md'')) ''b.md'' = []
   \<and> backlinksGraph (fst (deleteNote demo_env vault_scanned ''a.md'')) = [(''b.md'', [])]
   \<and> brokenLinks (analyzeLinkNetwork (fst (deleteNote demo_env vault_scanned ''a.md'')))
       = [''b.md: a'']
   \<and> getBacklinks (fst (deleteNote demo_env vault_scanned ''a.md'')) ''b.md'' = [''a.md'']
   \<and> getBacklinks (run_ops demo_env vault_scanned [Remove ''a.md'']) ''b.md'' = [''a.md'']"
proof -
  have example:
    "getForwardLinks vault_scanned ''b.md'' = [''a.md'']
     \<and> getBacklinks vault_scanned ''b.md'' = [''a.md'']
     \<and> snd (deleteNote demo_env vault_scanned ''a.md'') = Inr ()
     \<and> cache_keys (fst (deleteNote demo_env vault_scanned ''a.md'')) = [''b.md'']
     \<and> getForwardLinks (fst (deleteNote demo_env vault_scanned ''a.md'')) ''b.md'' = []
     \<and> backlinksGraph (fst (deleteNote demo_env vault_scanned ''a.md'')) = [(''b.md'', [])]
     \<and> brokenLinks (analyzeLinkNetwork (fst (deleteNote demo_env vault_scanned ''a.md'')))
         = [''b.md: a'']
     \<and> getBacklinks (fst (deleteNote demo_env vault_scanned ''a.md'')) ''b.md'' = [''a.md'']
     \<and> getBacklinks (run_ops demo_env vault_scanned [Remove ''a.md'']) ''b.md'' = [''a.md'']"
    by code_simp
  show ?thesis
    using removeFromCache_getBacklinks [of st rp B] example by simp
qed

section \<open>Initialization and the watcher\<close>

lemma updateCacheEntry_linkGraph: "linkGraph (updateCacheEntry e st rp) = linkGraph st"
  by (simp add: updateCacheEntry_def Let_def logger_def split: sum.splits prod.splits)

text \<open>
  C5. A vault root that is a regular file should fail with the not-a-directory error, and
  a root that cannot be accessed with a different one. The not-a-directory error is thrown
  inside the \<open>try\<close> block whose \<open>catch\<close> replaces every error: \<open>initializeVault\<close> never fails
  with it, and on a root that is a file and on a root that does not exist it fails with the
  same error.
\<close>

theorem initializeVault_not_a_directory_masked:
  "snd (initializeVault e st) \<noteq> Inl (NotADirectory d)
   \<and> snd (initializeVault demo_env
            (new_client demo_env (Dir [(''vault'', File ''text'' 0 0)]) ''/vault''))
       = Inl (CannotAccess ''/vault'')
   \<and> snd (initializeVault demo_env (new_client demo_env (Dir []) ''/vault''))
       = Inl (CannotAccess ''/vault'')"
proof -
  have general: "snd (initializeVault e st) \<noteq> Inl (NotADirectory d)"
    by (auto simp: initializeVault_def Let_def scanVault_def findMarkdownFiles_def
        fs_readdir_def split: sum.splits option.splits fnode.splits)
  have on_file: "snd (initializeVault demo_env
                     (new_client demo_env (Dir [(''vault'', File ''text'' 0 0)]) ''/vault''))
                = Inl (CannotAccess ''/vault'')"
    by code_simp
  have on_missing: "snd (initializeVault demo_env (new_client demo_env (Dir []) ''/vault''))
                   = Inl (CannotAccess ''/vault'')"
    by code_simp
  show ?thesis
    using general on_file on_missing by simp
qed

text \<open>
  C6. After an add or change event of the watcher the forward links of the note should be
  those of its new text. \<open>handleFileChange\<close> replaces the cache entry and rebuilds the
  search index only, so the forward graph after the event is the one before it: with
  \<open>a.md\<close> rewritten from a link to \<open>b\<close> into a link to \<open>aa\<close>, the entry has the new link and the
  forward links of \<open>a.md\<close> are still \<open>b.md\<close>, until the graphs are rebuilt.
\<close>

theorem handleFileChange_no_graph_rebuild:
  "linkGraph (handleFileChange e st filePath Add) = linkGraph st
   \<and> linkGraph (handleFileChange e st filePath Change) = linkGraph st
   \<and> map_option links (map_of (noteCache vault_edited) ''a.md'') = Some [''aa'']
   \<and> getForwardLinks vault_edited ''a.md'' = [''b.md'']
   \<and> getForwardLinks (buildLinkGraphs vault_edited) ''a.md'' = [''aa.md'']"
proof -
  have general: "linkGraph (handleFileChange e st filePath ev) = linkGraph st"
    if "ev = Add \<or> ev = Change" for ev
    using that
    by (auto simp: handleFileChange_def Let_def rebuildSearchIndex_def updateCacheEntry_linkGraph)
  have example: "map_option links (map_of (noteCache vault_edited) ''a.md'') = Some [''aa'']
      \<and> getForwardLinks vault_edited ''a.md'' = [''b.md'']
      \<and> getForwardLinks (buildLinkGraphs vault_edited) ''a.md'' = [''aa.md'']"
    by code_simp
  show ?thesis
    using general [of Add] general [of Change] example by simp
qed

section \<open>Notes on disk\<close>

text \<open>
  C3. \<open>createNote\<close> with the path \<open>note\<close> should write \<open>note.md\<close>, and reading \<open>note\<close> or
  \<open>note.md\<close> should give the same entry. The extension is appended to the argument after
  the path has been validated, and the validated path is the one written and cached: the
  file on disk is \<open>note\<close>, the cache key is \<open>note\<close>, and reading \<open>note.md\<close> fails.
\<close>

theorem createNote_extension_not_persisted:
  "lookup_node (fsroot vault_note) [''vault'', ''note.md''] = None
   \<and> lookup_node (fsroot vault_note) [''vault'', ''note''] = Some (File ''hello'' 0 0)
   \<and> cache_keys vault_note = [''note'']
   \<and> snd (readNote demo_env vault_note ''note.md'') = Inl (NoteNotFound ''note.md'')"
  by code_simp

section \<open>Search and statistics\<close>



lemma foldl_add_words:
  "foldl (\<lambda>sum n. sum + wordCount n) a ns = a + sum_list (map wordCount ns)"
  by (induction ns arbitrary: a) auto

text \<open>
  C8. Over a cache of exactly three notes with the word counts 8, 8 and 6,
  \<open>getVaultStatistics\<close> returns 22 total words and the average 7; and over every cache the
  average is \<open>Math.round\<close> of the total divided by the number of notes, the nearest integer
  with a half rounded up (over the words 1 and 2 it is 2), and not a number over no notes.
\<close>

theorem getVaultStatistics_example:
  assumes "mset (map wordCount (map snd (noteCache st))) = {#8, 8, 6#}"
  shows "totalNotes (getVaultStatistics st) = 3
     \<and> totalWords (getVaultStatistics st) = 22
     \<and> averageWordsPerNote (getVaultStatistics st) = Some 7
     \<and> \<bar>7 - real (totalWords (getVaultStatistics st))
              / real (totalNotes (getVaultStatistics st))\<bar> \<le> 1 / 2
     \<and> averageWordsPerNote (getVaultStatistics s)
         = (if totalNotes (getVaultStatistics s) = 0 then None
            else Some (Math_round (real (totalWords (getVaultStatistics s))
                                    / real (totalNotes (getVaultStatistics s)))))
     \<and> Math_round x = \<lfloor>x + 1 / 2\<rfloor>
     \<and> \<bar>real_of_int (Math_round x) - x\<bar> \<le> 1 / 2"
proof -
  let ?ws = "map wordCount (map snd (noteCache st))"
  have len: "length (noteCache st) = 3"
  proof -
    have "size (mset ?ws) = 3" using assms by simp
    then show ?thesis by simp
  qed
  have tot: "sum_list ?ws = 22"
  proof -
    have "sum_mset (mset ?ws) = 22" using assms by simp
    then show ?thesis by (simp only: sum_mset_sum_list)
  qed
  have ne: "noteCache st \<noteq> []" using len by auto
  have three: "totalNotes (getVaultStatistics st) = 3
     \<and> totalWords (getVaultStatistics st) = 22
     \<and> averageWordsPerNote (getVaultStatistics st) = Some 7
     \<and> \<bar>7 - real (totalWords (getVaultStatistics st))
              / real (totalNotes (getVaultStatistics st))\<bar> \<le> 1 / 2"
    using len tot ne
    by (simp add: getVaultStatistics_def Let_def foldl_add_words Math_round_def)
  have general: "averageWordsPerNote (getVaultStatistics s)
         = (if totalNotes (getVaultStatistics s) = 0 then None
            else Some (Math_round (real (totalWords (getVaultStatistics s))
                                    / real (totalNotes (getVaultStatistics s)))))"
    by (simp add: getVaultStatistics_def Let_def)
  have round_def: "Math_round x = \<lfloor>x + 1 / 2\<rfloor>"
    by (simp only: Math_round_def)
  have nearest: "\<bar>real_of_int (Math_round x) - x\<bar> \<le> 1 / 2"
    unfolding Math_round_def by linarith
  show ?thesis
    using three general round_def nearest by (elim conjE) (intro conjI; assumption)
qed

theorem getVaultStatistics_example_witness:
  "mset (map wordCount (map snd (noteCache vault_words))) = {#8, 8, 6#}
   \<and> totalWords (getVaultStatistics vault_words) = 22
   \<and> averageWordsPerNote (getVaultStatistics vault_words) = Some 7
   \<and> map wordCount (map snd (noteCache vault_half)) = [1, 2]
   \<and> averageWordsPerNote (getVaultStatistics vault_half) = Some 2"
proof -
  have h: "map wordCount (map snd (noteCache vault_words)) = [8, 8, 6]"
    by code_simp
  have m: "mset (map wordCount (map snd (noteCache vault_words))) = {#8, 8, 6#}"
    unfolding h by simp
  have w: "map wordCount (map snd (noteCache vault_half)) = [1, 2]"
    by code_simp
  have n: "totalNotes (getVaultStatistics vault_half) = 2"
    by code_simp
  have t: "totalWords (getVaultStatistics vault_half) = 3"
    by code_simp
  have r: "Math_round (real 3 / real 2) = 2"
    by (simp add: Math_round_def)
  note ex = getVaultStatistics_example [OF m, of vault_half 0]
  have words: "totalWords (getVaultStatistics vault_words) = 22"
    using ex by (elim conjE)
  have seven: "averageWordsPerNote (getVaultStatistics vault_words) = Some 7"
    using ex by (elim conjE)
  have "averageWordsPerNote (getVaultStatistics vault_half)
          = (if totalNotes (getVaultStatistics vault_half) = 0 then None
             else Some (Math_round (real (totalWords (getVaultStatistics vault_half))
                                     / real (totalNotes (getVaultStatistics vault_half)))))"
    using ex by (elim conjE)
  then have half: "averageWordsPerNote (getVaultStatistics vault_half) = Some 2"
    unfolding n t r by simp
  show ?thesis
    using m words seven w half by (intro conjI)
qed

end
